theory Spec2Isabelle
  imports Main
begin

section \<open>Undefined behaviour as an error value\<close>

text \<open>
  The C and C++ sources have operations whose behaviour is undefined: signed
  overflow of an \<^verbatim>\<open>int\<close>, dereferencing a null or dangling pointer, reading an
  uninitialised variable. The model makes each of them an error value, distinct from the
  \<^verbatim>\<open>-1\<close> that the list operations return on a refused request.
\<close>

datatype error = Signed_overflow | NULL_dereference | Invalid_pointer | Uninitialized_read

section \<open>Excel sheet column number: \<^verbatim>\<open>Solution::titleToNumber\<close>\<close>

definition INT_MAX :: int where
  "INT_MAX = 2147483647"

definition INT_MIN :: int where
  "INT_MIN = - 2147483648"

text \<open>The value of an \<^verbatim>\<open>int\<close> expression: the mathematical result when it fits.\<close>

definition int_arith :: "int \<Rightarrow> error + int" where
  "int_arith v = (if INT_MIN \<le> v \<and> v \<le> INT_MAX then Inr v else Inl Signed_overflow)"

text \<open>
  Promotion of a plain \<^verbatim>\<open>char\<close> to \<^verbatim>\<open>int\<close>. Whether \<^verbatim>\<open>char\<close> is signed is
  implementation-defined, so it is a parameter of the model.
\<close>

definition char_to_int :: "bool \<Rightarrow> char \<Rightarrow> int" where
  "char_to_int sc c =
     (let n = int (of_char c) in if sc \<and> 128 \<le> n then n - 256 else n)"

text \<open>
  The \<^verbatim>\<open>for\<close> loop of \<^verbatim>\<open>titleToNumber\<close>, with its index \<open>i\<close> and its accumulator
  \<open>result\<close>; the character constant \<^verbatim>\<open>'A'\<close> is 65.
\<close>

function titleToNumber_loop :: "bool \<Rightarrow> string \<Rightarrow> int \<Rightarrow> int \<Rightarrow> error + int" where
  "titleToNumber_loop sc s i result =
     (if 0 \<le> i \<and> nat i < length s then
        (case int_arith (result * 26) of
           Inl e \<Rightarrow> Inl e
         | Inr m \<Rightarrow>
            (case int_arith (m + (char_to_int sc (s ! nat i) - 65 + 1)) of
               Inl e \<Rightarrow> Inl e
             | Inr r \<Rightarrow>
                (case int_arith (i + 1) of
                   Inl e \<Rightarrow> Inl e
                 | Inr i' \<Rightarrow> titleToNumber_loop sc s i' r)))
      else Inr result)"
  by pat_completeness auto
termination
  by (relation "measure (\<lambda>(sc, s, i, result). length s - nat i)")
     (auto simp: int_arith_def split: if_splits)

definition titleToNumber :: "bool \<Rightarrow> string \<Rightarrow> error + int" where
  "titleToNumber sc s = titleToNumber_loop sc s 0 0"

text \<open>
  The closed form the claim gives for the result: the sum over the positions \<open>i\<close> of
  \<open>(s[i] - 'A' + 1) * 26 ^ (length s - 1 - i)\<close>.
\<close>

definition title_value :: "string \<Rightarrow> int" where
  "title_value s = (\<Sum>i<length s. (int (of_char (s ! i)) - 65 + 1) * 26 ^ (length s - 1 - i))"

definition upper_case :: "char \<Rightarrow> bool" where
  "upper_case c = (65 \<le> (of_char c :: nat) \<and> (of_char c :: nat) \<le> 90)"

section \<open>The doubly-linked list: \<^verbatim>\<open>dlist.c\<close>\<close>

subsection \<open>Data\<close>

type_synonym addr = nat

text \<open>
  The header \<^verbatim>\<open>dlist.h\<close>, which declares the two structures and the accessor macros,
  is not among the sources. A pointer is \<open>None\<close> for \<^verbatim>\<open>NULL\<close> and \<open>Some a\<close> for the
  address \<open>a\<close>; the payload type \<^verbatim>\<open>void *\<close> is the type variable \<open>'a\<close>; the two
  function-pointer types are the type variables \<open>'f\<close> (destructor) and \<open>'m\<close> (matcher).
\<close>

text \<open>
  Modelled from the spec: the structure \<^verbatim>\<open>DListElmt\<close> of the missing header. An element
  holds one payload reference, a previous and a next reference, each to another element or
  none; they are the fields \<^verbatim>\<open>data\<close>, \<^verbatim>\<open>prev\<close> and \<^verbatim>\<open>next\<close> that \<^verbatim>\<open>dlist.c\<close> uses.
\<close>

record 'a DListElmt =
  data :: 'a
  prev :: "addr option"
  "next" :: "addr option"

text \<open>
  Modelled from the spec: the structure \<^verbatim>\<open>DList\<close> of the missing header. A list holds a
  count of elements, an optional equality-comparison function, an optional destructor
  callback, and the references to the head and the tail element; they are the fields
  \<^verbatim>\<open>size\<close>, \<^verbatim>\<open>match\<close>, \<^verbatim>\<open>destroy\<close>, \<^verbatim>\<open>head\<close> and \<^verbatim>\<open>tail\<close> that \<^verbatim>\<open>dlist.c\<close> uses.
  The count has no width in the model. \<^verbatim>\<open>dlist_destroy\<close> spells the destructor field
  \<^verbatim>\<open>destory\<close>; the model reads it as the field \<^verbatim>\<open>destroy\<close> that \<^verbatim>\<open>dlist_init\<close> sets.
\<close>

record ('f, 'm) DList =
  size' :: nat
  match :: "'m option"
  destroy :: "'f option"
  head :: "addr option"
  tail :: "addr option"

text \<open>
  Modelled from the spec: the macro \<^verbatim>\<open>dlist_size\<close> of the missing header, the read-only
  accessor for the size.
\<close>

definition dlist_size :: "('f, 'm) DList \<Rightarrow> nat" where
  "dlist_size l = size' l"

text \<open>
  Modelled from the spec: the macro \<^verbatim>\<open>dlist_tail\<close> of the missing header, the read-only
  accessor for the tail reference.
\<close>

definition dlist_tail :: "('f, 'm) DList \<Rightarrow> addr option" where
  "dlist_tail l = tail l"

text \<open>
  The program state: the list structure, the store of allocated elements, and the log of
  the calls made through the destructor pointer (function pointer and argument).
\<close>

record ('a, 'f, 'm) state =
  list :: "('f, 'm) DList"
  heap :: "addr \<rightharpoonup> 'a DListElmt"
  calls :: "('f \<times> 'a) list"

subsection \<open>Reading and writing through a pointer\<close>

definition load :: "(addr \<rightharpoonup> 'a DListElmt) \<Rightarrow> addr option \<Rightarrow> error + 'a DListElmt" where
  "load h p =
     (case p of
        None \<Rightarrow> Inl NULL_dereference
      | Some a \<Rightarrow> (case h a of None \<Rightarrow> Inl Invalid_pointer | Some c \<Rightarrow> Inr c))"

definition store :: "(addr \<rightharpoonup> 'a DListElmt) \<Rightarrow> addr option \<Rightarrow> ('a DListElmt \<Rightarrow> 'a DListElmt)
    \<Rightarrow> error + (addr \<rightharpoonup> 'a DListElmt)" where
  "store h p f =
     (case p of
        None \<Rightarrow> Inl NULL_dereference
      | Some a \<Rightarrow> (case h a of None \<Rightarrow> Inl Invalid_pointer | Some c \<Rightarrow> Inr (h(a \<mapsto> f c))))"

subsection \<open>Operations\<close>

definition dlist_init :: "('a, 'f, 'm) state \<Rightarrow> 'f option \<Rightarrow> 'm option \<Rightarrow> ('a, 'f, 'm) state" where
  "dlist_init st dtor mtch =
     st\<lparr>list := \<lparr>size' = 0, match = mtch, destroy = dtor, head = None, tail = None\<rparr>\<rparr>"

text \<open>
  \<^verbatim>\<open>dlist_ins_next\<close>. The argument \<open>m\<close> is what \<^verbatim>\<open>malloc\<close> returns: \<open>None\<close> when the
  allocation fails, otherwise the address of the new element. The fields of the new
  element that \<^verbatim>\<open>malloc\<close> leaves indeterminate start as \<open>None\<close>; both branches write
  them before anything reads them. That the address is not one already allocated is not
  part of the function: the theorems that need it assume it. The result is the returned
  \<^verbatim>\<open>int\<close> and the state.
\<close>

definition dlist_ins_next :: "('a, 'f, 'm) state \<Rightarrow> addr option \<Rightarrow> addr option \<Rightarrow> 'a
    \<Rightarrow> error + (int \<times> ('a, 'f, 'm) state)" where
  "dlist_ins_next st m element d =
     (if element = None \<and> dlist_size (list st) \<noteq> 0 then Inr (- 1, st)
      else case m of
        None \<Rightarrow> Inr (- 1, st)
      | Some new_element \<Rightarrow>
          let h0 = (heap st)(new_element \<mapsto> \<lparr>data = d, prev = None, next = None\<rparr>);
              l = list st
          in if dlist_size l = 0 then
               let l1 = l\<lparr>head := Some new_element\<rparr> in
               (case store h0 (head l1) (\<lambda>c. c\<lparr>prev := None\<rparr>) of
                  Inl e \<Rightarrow> Inl e
                | Inr h1 \<Rightarrow>
                   (case store h1 (head l1) (\<lambda>c. c\<lparr>next := None\<rparr>) of
                      Inl e \<Rightarrow> Inl e
                    | Inr h2 \<Rightarrow>
                       let l2 = l1\<lparr>tail := Some new_element\<rparr> in
                       Inr (0, st\<lparr>list := l2\<lparr>size' := size' l2 + 1\<rparr>, heap := h2\<rparr>)))
             else
               (case load h0 element of
                  Inl e \<Rightarrow> Inl e
                | Inr c0 \<Rightarrow>
                   (case store h0 (Some new_element) (\<lambda>c. c\<lparr>next := next c0\<rparr>) of
                      Inl e \<Rightarrow> Inl e
                    | Inr h1 \<Rightarrow>
                       (case store h1 (Some new_element) (\<lambda>c. c\<lparr>prev := element\<rparr>) of
                          Inl e \<Rightarrow> Inl e
                        | Inr h2 \<Rightarrow>
                           (case load h2 element of
                              Inl e \<Rightarrow> Inl e
                            | Inr c2 \<Rightarrow>
                               (case (if next c2 = None then Inr (l\<lparr>tail := Some new_element\<rparr>, h2)
                                      else (case store h2 (next c2) (\<lambda>c. c\<lparr>prev := Some new_element\<rparr>) of
                                              Inl e \<Rightarrow> Inl e
                                            | Inr h3 \<Rightarrow> Inr (l, h3))) of
                                  Inl e \<Rightarrow> Inl e
                                | Inr (l3, h3) \<Rightarrow>
                                   (case store h3 element (\<lambda>c. c\<lparr>next := Some new_element\<rparr>) of
                                      Inl e \<Rightarrow> Inl e
                                    | Inr h4 \<Rightarrow>
                                       Inr (0, st\<lparr>list := l3\<lparr>size' := size' l3 + 1\<rparr>,
                                                 heap := h4\<rparr>))))))))"

text \<open>\<^verbatim>\<open>dlist_ins_prev\<close>, the same with the two directions exchanged.\<close>

definition dlist_ins_prev :: "('a, 'f, 'm) state \<Rightarrow> addr option \<Rightarrow> addr option \<Rightarrow> 'a
    \<Rightarrow> error + (int \<times> ('a, 'f, 'm) state)" where
  "dlist_ins_prev st m element d =
     (if element = None \<and> dlist_size (list st) \<noteq> 0 then Inr (- 1, st)
      else case m of
        None \<Rightarrow> Inr (- 1, st)
      | Some new_element \<Rightarrow>
          let h0 = (heap st)(new_element \<mapsto> \<lparr>data = d, prev = None, next = None\<rparr>);
              l = list st
          in if dlist_size l = 0 then
               let l1 = l\<lparr>head := Some new_element\<rparr> in
               (case store h0 (head l1) (\<lambda>c. c\<lparr>prev := None\<rparr>) of
                  Inl e \<Rightarrow> Inl e
                | Inr h1 \<Rightarrow>
                   (case store h1 (head l1) (\<lambda>c. c\<lparr>next := None\<rparr>) of
                      Inl e \<Rightarrow> Inl e
                    | Inr h2 \<Rightarrow>
                       let l2 = l1\<lparr>tail := Some new_element\<rparr> in
                       Inr (0, st\<lparr>list := l2\<lparr>size' := size' l2 + 1\<rparr>, heap := h2\<rparr>)))
             else
               (case load h0 element of
                  Inl e \<Rightarrow> Inl e
                | Inr c0 \<Rightarrow>
                   (case store h0 (Some new_element) (\<lambda>c. c\<lparr>prev := prev c0\<rparr>) of
                      Inl e \<Rightarrow> Inl e
                    | Inr h1 \<Rightarrow>
                       (case store h1 (Some new_element) (\<lambda>c. c\<lparr>next := element\<rparr>) of
                          Inl e \<Rightarrow> Inl e
                        | Inr h2 \<Rightarrow>
                           (case load h2 element of
                              Inl e \<Rightarrow> Inl e
                            | Inr c2 \<Rightarrow>
                               (case (if prev c2 = None then Inr (l\<lparr>head := Some new_element\<rparr>, h2)
                                      else (case store h2 (prev c2) (\<lambda>c. c\<lparr>next := Some new_element\<rparr>) of
                                              Inl e \<Rightarrow> Inl e
                                            | Inr h3 \<Rightarrow> Inr (l, h3))) of
                                  Inl e \<Rightarrow> Inl e
                                | Inr (l3, h3) \<Rightarrow>
                                   (case store h3 element (\<lambda>c. c\<lparr>prev := Some new_element\<rparr>) of
                                      Inl e \<Rightarrow> Inl e
                                    | Inr h4 \<Rightarrow>
                                       Inr (0, st\<lparr>list := l3\<lparr>size' := size' l3 + 1\<rparr>,
                                                 heap := h4\<rparr>))))))))"

text \<open>
  \<^verbatim>\<open>dlist_remove\<close>. The result is the returned \<^verbatim>\<open>int\<close>, what the call wrote to
  \<^verbatim>\<open>*data\<close> (\<open>None\<close> when it wrote nothing), and the state. \<^verbatim>\<open>free\<close> takes the element
  out of the store.
\<close>

definition dlist_remove :: "('a, 'f, 'm) state \<Rightarrow> addr option
    \<Rightarrow> error + (int \<times> 'a option \<times> ('a, 'f, 'm) state)" where
  "dlist_remove st element =
     (if element = None \<or> dlist_size (list st) = 0 then Inr (- 1, None, st)
      else
        let l = list st; h = heap st in
        (case load h element of
           Inl e \<Rightarrow> Inl e
         | Inr c0 \<Rightarrow>
            (case (if element = head l then
                     let l1 = l\<lparr>head := next c0\<rparr> in
                     if head l1 = None then Inr (l1\<lparr>tail := None\<rparr>, h)
                     else (case store h (next c0) (\<lambda>c. c\<lparr>prev := None\<rparr>) of
                             Inl e \<Rightarrow> Inl e
                           | Inr h1 \<Rightarrow> Inr (l1, h1))
                   else
                     (case store h (prev c0) (\<lambda>c. c\<lparr>next := next c0\<rparr>) of
                        Inl e \<Rightarrow> Inl e
                      | Inr h1 \<Rightarrow>
                         (case load h1 element of
                            Inl e \<Rightarrow> Inl e
                          | Inr c1 \<Rightarrow>
                             if next c1 = None then Inr (l\<lparr>tail := prev c1\<rparr>, h1)
                             else (case store h1 (next c1) (\<lambda>c. c\<lparr>prev := prev c1\<rparr>) of
                                     Inl e \<Rightarrow> Inl e
                                   | Inr h2 \<Rightarrow> Inr (l, h2))))) of
               Inl e \<Rightarrow> Inl e
             | Inr (l2, h2) \<Rightarrow>
                (case element of
                   None \<Rightarrow> Inl NULL_dereference
                 | Some a \<Rightarrow>
                    Inr (0, Some (data c0),
                         st\<lparr>list := l2\<lparr>size' := size' l2 - 1\<rparr>, heap := h2(a := None)\<rparr>)))))"

text \<open>
  \<^verbatim>\<open>dlist_destroy\<close>. The condition of the \<^verbatim>\<open>if\<close> has a closing parenthesis too many
  in the source; it is read as the conjunction of its two tests. The loop need not end (a
  failed removal leaves the size as it was), so the function is partial: \<open>None\<close> is a
  run that never returns. The local
  \<^verbatim>\<open>data\<close> holds what the removal wrote; calling the destructor appends to the log.
  \<^verbatim>\<open>memset\<close> clears every field of the structure.
\<close>

partial_function (option) dlist_destroy :: "('a, 'f, 'm) state
    \<Rightarrow> (error + ('a, 'f, 'm) state) option" where
  "dlist_destroy st =
     (if dlist_size (list st) > 0 then
        (case dlist_remove st (dlist_tail (list st)) of
           Inl e \<Rightarrow> Some (Inl e)
         | Inr (r, out, st1) \<Rightarrow>
            if r = 0 \<and> destroy (list st1) \<noteq> None then
              (case (destroy (list st1), out) of
                 (Some f, Some d) \<Rightarrow> dlist_destroy (st1\<lparr>calls := calls st1 @ [(f, d)]\<rparr>)
               | (Some f, None) \<Rightarrow> Some (Inl Uninitialized_read)
               | (None, _) \<Rightarrow> Some (Inl NULL_dereference))
            else dlist_destroy st1)
      else
        Some (Inr (st\<lparr>list := \<lparr>size' = 0, match = None, destroy = None,
                               head = None, tail = None\<rparr>\<rparr>)))"


subsection \<open>Sequences of operations\<close>

text \<open>
  A call of one of the three mutating operations, with its arguments; an insertion also
  carries what \<^verbatim>\<open>malloc\<close> returns to it.
\<close>

datatype 'a operation =
    InsertAfter "addr option" "addr option" 'a
  | InsertBefore "addr option" "addr option" 'a
  | Remove "addr option"

fun apply_op :: "('a, 'f, 'm) state \<Rightarrow> 'a operation \<Rightarrow> error + (int \<times> ('a, 'f, 'm) state)" where
  "apply_op st (InsertAfter m element d) = dlist_ins_next st m element d"
| "apply_op st (InsertBefore m element d) = dlist_ins_prev st m element d"
| "apply_op st (Remove element) =
     (case dlist_remove st element of Inl e \<Rightarrow> Inl e | Inr (r, out, st1) \<Rightarrow> Inr (r, st1))"

text \<open>Running a sequence gives each operation with the value it returned, and the last state.\<close>

fun run :: "('a, 'f, 'm) state \<Rightarrow> 'a operation list
    \<Rightarrow> error + (('a operation \<times> int) list \<times> ('a, 'f, 'm) state)" where
  "run st [] = Inr ([], st)"
| "run st (x # xs) =
     (case apply_op st x of
        Inl e \<Rightarrow> Inl e
      | Inr (r, st1) \<Rightarrow>
         (case run st1 xs of Inl e \<Rightarrow> Inl e | Inr (tr, st2) \<Rightarrow> Inr ((x, r) # tr, st2)))"

fun is_insertion :: "'a operation \<Rightarrow> bool" where
  "is_insertion (InsertAfter m element d) = True"
| "is_insertion (InsertBefore m element d) = True"
| "is_insertion (Remove element) = False"

definition successful_insertions :: "('a operation \<times> int) list \<Rightarrow> nat" where
  "successful_insertions tr = length (filter (\<lambda>(x, r). is_insertion x \<and> r = 0) tr)"

definition successful_removals :: "('a operation \<times> int) list \<Rightarrow> nat" where
  "successful_removals tr = length (filter (\<lambda>(x, r). \<not> is_insertion x \<and> r = 0) tr)"

subsection \<open>Well-formed lists\<close>

text \<open>
  The two link fields of the store, as functions of the address: \<open>None\<close> where nothing is
  allocated, otherwise the pointer held in the field.
\<close>

definition next_of :: "(addr \<rightharpoonup> 'a DListElmt) \<Rightarrow> addr \<Rightarrow> addr option option" where
  "next_of h a = map_option next (h a)"

definition prev_of :: "(addr \<rightharpoonup> 'a DListElmt) \<Rightarrow> addr \<Rightarrow> addr option option" where
  "prev_of h a = map_option prev (h a)"

definition payload :: "('a, 'f, 'm) state \<Rightarrow> addr option \<Rightarrow> 'a option" where
  "payload st p = (case p of None \<Rightarrow> None | Some a \<Rightarrow> map_option data (heap st a))"

text \<open>
  The element after and the element before the element that \<open>p\<close> points to; \<open>None\<close> when
  there is none, and when \<open>p\<close> points to nothing allocated.
\<close>

definition next_elmt :: "('a, 'f, 'm) state \<Rightarrow> addr option \<Rightarrow> addr option" where
  "next_elmt st p =
     (case p of None \<Rightarrow> None | Some a \<Rightarrow> (case heap st a of None \<Rightarrow> None | Some c \<Rightarrow> next c))"

definition prev_elmt :: "('a, 'f, 'm) state \<Rightarrow> addr option \<Rightarrow> addr option" where
  "prev_elmt st p =
     (case p of None \<Rightarrow> None | Some a \<Rightarrow> (case heap st a of None \<Rightarrow> None | Some c \<Rightarrow> prev c))"

text \<open>
  \<open>scan lk n x\<close> follows the links \<open>lk\<close> from the pointer \<open>x\<close> until \<^verbatim>\<open>NULL\<close> and
  returns the elements it visits, in order. It gives up (\<open>None\<close>) at a pointer to nothing
  allocated, and when there are more than \<open>n\<close> elements.
\<close>

fun scan :: "(addr \<Rightarrow> addr option option) \<Rightarrow> nat \<Rightarrow> addr option \<Rightarrow> addr list option" where
  "scan lk n None = Some []"
| "scan lk 0 (Some a) = None"
| "scan lk (Suc n) (Some a) =
     (case lk a of
        None \<Rightarrow> None
      | Some x \<Rightarrow> (case scan lk n x of None \<Rightarrow> None | Some as \<Rightarrow> Some (a # as)))"

definition dlist_elements :: "('a, 'f, 'm) state \<Rightarrow> addr list" where
  "dlist_elements st =
     (case scan (next_of (heap st)) (size' (list st)) (head (list st)) of
        None \<Rightarrow> []
      | Some as \<Rightarrow> as)"

definition dlist_payloads :: "('a, 'f, 'm) state \<Rightarrow> 'a option list" where
  "dlist_payloads st = map (\<lambda>a. payload st (Some a)) (dlist_elements st)"

text \<open>
  The structural invariants of the list, as the specification lists them:
  the size is zero exactly when head and tail are both \<^verbatim>\<open>NULL\<close>;
  the head element has no previous and the tail element no next element;
  the forward scan from the head and the backward scan from the tail each visit exactly
  \<^verbatim>\<open>size\<close> elements, and the same ones;
  and every element that has a next element is the previous element of it, and every
  element that has a previous element is the next element of it.
\<close>

definition dlist_inv :: "('a, 'f, 'm) state \<Rightarrow> bool" where
  "dlist_inv st =
     (let l = list st; nx = next_of (heap st); pv = prev_of (heap st) in
      ((size' l = 0) = (head l = None \<and> tail l = None)) \<and>
      (case head l of None \<Rightarrow> True | Some a \<Rightarrow> pv a = Some None) \<and>
      (case tail l of None \<Rightarrow> True | Some a \<Rightarrow> nx a = Some None) \<and>
      (case (scan nx (size' l) (head l), scan pv (size' l) (tail l)) of
         (Some fs, Some bs) \<Rightarrow>
            length fs = size' l \<and> length bs = size' l \<and> set fs = set bs \<and>
            (\<forall>e\<in>set fs.
               (case nx e of Some (Some n) \<Rightarrow> pv n = Some (Some e) | _ \<Rightarrow> True) \<and>
               (case pv e of Some (Some p) \<Rightarrow> nx p = Some (Some e) | _ \<Rightarrow> True))
       | _ \<Rightarrow> False))"

text \<open>
  The abstraction used in the proofs. \<open>seg lk x as y\<close>: following the links \<open>lk\<close> from
  \<open>x\<close> visits exactly the allocated elements \<open>as\<close> and then arrives at \<open>y\<close>.
  \<open>dlist_repr st as\<close>: the list of state \<open>st\<close> holds the elements \<open>as\<close>, in this order.
\<close>

fun seg :: "(addr \<Rightarrow> addr option option) \<Rightarrow> addr option \<Rightarrow> addr list \<Rightarrow> addr option \<Rightarrow> bool" where
  "seg lk x [] y = (x = y)"
| "seg lk x (a # as) y = (x = Some a \<and> (case lk a of None \<Rightarrow> False | Some n \<Rightarrow> seg lk n as y))"

definition dlist_repr :: "('a, 'f, 'm) state \<Rightarrow> addr list \<Rightarrow> bool" where
  "dlist_repr st as =
     (seg (next_of (heap st)) (head (list st)) as None \<and>
      seg (prev_of (heap st)) (tail (list st)) (rev as) None \<and>
      size' (list st) = length as)"

subsection \<open>Two example states\<close>

text \<open>
  A freshly initialised list in an empty store, and a list of two elements, at the
  addresses 1 and 2 with the payloads \<^verbatim>\<open>"A"\<close> and \<^verbatim>\<open>"B"\<close>, with a destructor
  registered. The theorems below are instantiated at them.
\<close>

definition empty_list :: "(string, nat, nat) state" where
  "empty_list =
     \<lparr>list = \<lparr>size' = 0, match = None, destroy = None, head = None, tail = None\<rparr>,
      heap = Map.empty, calls = []\<rparr>"

definition two_element_list :: "(string, nat, nat) state" where
  "two_element_list =
     \<lparr>list = \<lparr>size' = 2, match = None, destroy = Some 7, head = Some 1, tail = Some 2\<rparr>,
      heap = [1 \<mapsto> \<lparr>data = ''A'', prev = None, next = Some 2\<rparr>,
              2 \<mapsto> \<lparr>data = ''B'', prev = Some 1, next = None\<rparr>],
      calls = []\<rparr>"

section \<open>Properties of \<^verbatim>\<open>titleToNumber\<close>\<close>

declare titleToNumber_loop.simps [simp del]

lemma title_value_Nil: "title_value [] = 0"
  by (simp add: title_value_def)

lemma title_value_Cons:
  "title_value (c # cs) = (int (of_char c) - 65 + 1) * 26 ^ length cs + title_value cs"
  by (simp add: title_value_def sum.lessThan_Suc_shift del: sum.lessThan_Suc)

lemma title_value_nonneg: "\<forall>c\<in>set s. upper_case c \<Longrightarrow> 0 \<le> title_value s"
  by (induction s) (auto simp: title_value_Nil title_value_Cons upper_case_def)

lemma char_to_int_upper: "upper_case c \<Longrightarrow> char_to_int sc c = int (of_char c)"
  by (auto simp: char_to_int_def upper_case_def Let_def)

text \<open>
  The loop invariant: with \<open>i\<close> characters read and \<open>r\<close> accumulated, the loop returns
  \<open>r * 26 ^ (length s - i)\<close> plus the value of the unread characters, as long as that
  number fits an \<^verbatim>\<open>int\<close>. Every intermediate value is below the final one, and the index
  is below the accumulator, so nothing overflows on the way.
\<close>

lemma titleToNumber_loop_correct:
  assumes up: "\<forall>c\<in>set s. upper_case c"
  shows "k = length s - i \<Longrightarrow> i \<le> length s \<Longrightarrow> int i \<le> r
    \<Longrightarrow> r * 26 ^ (length s - i) + title_value (drop i s) \<le> INT_MAX
    \<Longrightarrow> titleToNumber_loop sc s (int i) r
        = Inr (r * 26 ^ (length s - i) + title_value (drop i s))"
proof (induction k arbitrary: i r)
  case 0
  then have "i = length s" by simp
  then show ?case by (simp add: title_value_Nil titleToNumber_loop.simps)
next
  case (Suc k)
  then have lt: "i < length s" by simp
  define dg where "dg = int (of_char (s ! i)) - 65 + 1"
  define r' where "r' = r * 26 + dg"
  have upi: "upper_case (s ! i)" using up lt by simp
  then have dg: "1 \<le> dg" "dg \<le> 26" by (auto simp: dg_def upper_case_def)
  have dr: "drop i s = s ! i # drop (Suc i) s" using lt by (simp add: Cons_nth_drop_Suc)
  have len: "length s - i = Suc (length s - Suc i)" using lt by simp
  have final: "r * 26 ^ (length s - i) + title_value (drop i s)
      = r' * 26 ^ (length s - Suc i) + title_value (drop (Suc i) s)"
    by (simp add: dr len title_value_Cons r'_def dg_def algebra_simps)
  have rest: "0 \<le> title_value (drop (Suc i) s)"
    by (rule title_value_nonneg) (use up in \<open>auto dest: in_set_dropD\<close>)
  have r0: "0 \<le> r" using Suc.prems by simp
  have r'0: "0 \<le> r'" using r0 dg by (simp add: r'_def)
  have "r' * 1 \<le> r' * 26 ^ (length s - Suc i)"
    by (rule mult_left_mono) (use r'0 in auto)
  then have r'le: "r' \<le> INT_MAX" using Suc.prems(4) final rest by simp
  have m: "int_arith (r * 26) = Inr (r * 26)"
    using r0 r'le dg by (simp add: int_arith_def r'_def INT_MIN_def)
  have a: "int_arith (r * 26 + (char_to_int sc (s ! i) - 65 + 1)) = Inr r'"
    using r'0 r'le by (simp add: int_arith_def char_to_int_upper [OF upi] r'_def dg_def INT_MIN_def)
  have ir: "int (Suc i) \<le> r'" using Suc.prems(3) r0 dg by (simp add: r'_def)
  have ix: "int_arith (int i + 1) = Inr (int (Suc i))"
    using ir r'le by (simp add: int_arith_def INT_MIN_def)
  have IH: "titleToNumber_loop sc s (int (Suc i)) r'
      = Inr (r' * 26 ^ (length s - Suc i) + title_value (drop (Suc i) s))"
    by (rule Suc.IH) (use Suc.prems lt ir final in auto)
  have "titleToNumber_loop sc s (int i) r = titleToNumber_loop sc s (int (Suc i)) r'"
    by (subst titleToNumber_loop.simps [of sc s "int i" r])
       (use a in \<open>simp add: lt m ix\<close>)
  then show ?case using IH final by simp
qed

text \<open>
  Claim C10. For every string \<open>s\<close> of the characters \<^verbatim>\<open>'A'\<close> to \<^verbatim>\<open>'Z'\<close> whose
  bijective base-26 value is below \<open>2 ^ 31\<close>, \<^verbatim>\<open>titleToNumber\<close> returns that value, the sum
  over the positions \<open>i\<close> of \<open>(s[i] - 'A' + 1) * 26 ^ (length s - 1 - i)\<close>, with no signed
  overflow on the way and whether \<^verbatim>\<open>char\<close> is signed or not. It returns 0 for the empty
  string, 1 for \<^verbatim>\<open>"A"\<close>, 26 for \<^verbatim>\<open>"Z"\<close> and 27 for \<^verbatim>\<open>"AA"\<close>.
\<close>

theorem titleToNumber_value:
  "((\<forall>c\<in>set s. upper_case c) \<and> title_value s < 2 ^ 31
      \<longrightarrow> titleToNumber sc s = Inr (title_value s))
   \<and> titleToNumber sc [] = Inr 0
   \<and> titleToNumber sc ''A'' = Inr 1
   \<and> titleToNumber sc ''Z'' = Inr 26
   \<and> titleToNumber sc ''AA'' = Inr 27"
proof -
  have gen: "titleToNumber sc s = Inr (title_value s)"
    if "\<forall>c\<in>set s. upper_case c" "title_value s < 2 ^ 31" for s
    using titleToNumber_loop_correct [OF that(1), of "length s" 0 0 sc] that(2)
    by (simp add: titleToNumber_def INT_MAX_def)
  have up: "upper_case CHR ''A''" "upper_case CHR ''Z''" by (simp_all add: upper_case_def)
  have "titleToNumber sc [] = Inr 0"
    using gen [of "[]"] by (simp add: title_value_Nil)
  moreover have "titleToNumber sc ''A'' = Inr 1"
    using gen [of "''A''"] up by (simp add: title_value_Nil title_value_Cons)
  moreover have "titleToNumber sc ''Z'' = Inr 26"
    using gen [of "''Z''"] up by (simp add: title_value_Nil title_value_Cons)
  moreover have "titleToNumber sc ''AA'' = Inr 27"
    using gen [of "''AA''"] up by (simp add: title_value_Nil title_value_Cons)
  ultimately show ?thesis using gen by blast
qed

text \<open>The largest column title in range, and a two-letter one.\<close>

theorem titleToNumber_value_witness:
  "titleToNumber True ''FXSHRXW'' = Inr 2147483647 \<and> titleToNumber False ''AB'' = Inr 28"
  using titleToNumber_value [of "''FXSHRXW''" True] titleToNumber_value [of "''AB''" False]
  by (simp add: title_value_def upper_case_def lessThan_Suc)


section \<open>Properties of the list that need no well-formedness\<close>

text \<open>
  Claim C2, as stated, fails: it lists a non-\<^verbatim>\<open>NULL\<close> element on an empty list among the
  inputs that the insertions refuse. The guard of both insertions is
  \<^verbatim>\<open>element == NULL && dlist_size(list) != 0\<close> only, so on an empty list the reference is
  ignored and the insertion goes through: here both return 0 and leave a list of size 1.
\<close>

theorem insert_refusal_counterexample:
  "dlist_ins_next empty_list (Some 1) (Some 7) ''x''
     = Inr (0, \<lparr>list = \<lparr>size' = 1, match = None, destroy = None,
                           head = Some 1, tail = Some 1\<rparr>,
                  heap = [1 \<mapsto> \<lparr>data = ''x'', prev = None, next = None\<rparr>], calls = []\<rparr>)
   \<and> dlist_ins_prev empty_list (Some 1) (Some 7) ''x''
     = Inr (0, \<lparr>list = \<lparr>size' = 1, match = None, destroy = None,
                           head = Some 1, tail = Some 1\<rparr>,
                  heap = [1 \<mapsto> \<lparr>data = ''x'', prev = None, next = None\<rparr>], calls = []\<rparr>)"
  by (simp add: empty_list_def dlist_ins_next_def dlist_ins_prev_def dlist_size_def store_def
      Let_def)

lemma ins_next_size:
  "dlist_ins_next st m element d = Inr (r, st') \<Longrightarrow>
     (r = 0 \<and> size' (list st') = size' (list st) + 1) \<or> (r = - 1 \<and> st' = st)"
  by (auto simp: dlist_ins_next_def dlist_size_def load_def store_def Let_def
      split: option.splits sum.splits if_splits prod.splits)

lemma ins_prev_size:
  "dlist_ins_prev st m element d = Inr (r, st') \<Longrightarrow>
     (r = 0 \<and> size' (list st') = size' (list st) + 1) \<or> (r = - 1 \<and> st' = st)"
  by (auto simp: dlist_ins_prev_def dlist_size_def load_def store_def Let_def
      split: option.splits sum.splits if_splits prod.splits)

lemma remove_size:
  "dlist_remove st element = Inr (r, out, st') \<Longrightarrow>
     (r = 0 \<and> 0 < size' (list st) \<and> size' (list st') = size' (list st) - 1)
     \<or> (r = - 1 \<and> st' = st)"
  by (auto simp: dlist_remove_def dlist_size_def load_def store_def Let_def
      split: option.splits sum.splits if_splits prod.splits)

text \<open>
  Claim C9. Whenever \<^verbatim>\<open>dlist_remove\<close> returns, the log of destructor calls is as it
  was, whether a destructor is registered or not: the removal never calls it. When the
  removal returns 0, what it wrote to \<^verbatim>\<open>*data\<close> is the payload that the removed element
  held, and the element is no longer allocated.
\<close>

theorem remove_returns_payload:
  "dlist_remove st element = Inr (r, out, st') \<Longrightarrow>
     calls st' = calls st \<and> destroy (list st') = destroy (list st) \<and>
     (r = 0 \<longrightarrow> out = payload st element \<and> out \<noteq> None \<and> payload st' element = None)"
  by (auto simp: dlist_remove_def dlist_size_def load_def store_def Let_def payload_def
      split: option.splits sum.splits if_splits prod.splits)

theorem remove_returns_payload_witness:
  "\<exists>st'. dlist_remove two_element_list (Some 2) = Inr (0, Some ''B'', st')
     \<and> calls st' = [] \<and> destroy (list st') = Some 7 \<and> payload st' (Some 2) = None"
proof -
  have "\<exists>st'. dlist_remove two_element_list (Some 2) = Inr (0, Some ''B'', st')"
    by (simp add: two_element_list_def dlist_remove_def dlist_size_def load_def store_def Let_def)
  then obtain st' where rm: "dlist_remove two_element_list (Some 2) = Inr (0, Some ''B'', st')" ..
  from remove_returns_payload [OF rm] rm show ?thesis
    by (simp add: two_element_list_def)
qed

text \<open>
  Claim C7. On a list of size zero, when \<^verbatim>\<open>malloc\<close> gives the address \<open>a\<close>,
  \<^verbatim>\<open>dlist_ins_next\<close> with a \<^verbatim>\<open>NULL\<close> element and payload \<open>x\<close> returns 0, the removal of
  the head that follows returns 0 and the payload \<open>x\<close>, and the list is empty again: size
  zero, head and tail \<^verbatim>\<open>NULL\<close>, the callbacks and the call log as before, and the address
  \<open>a\<close> free again.
\<close>

theorem insert_remove_round_trip:
  "size' (list st) = 0 \<Longrightarrow>
   (\<exists>st1 st2. dlist_ins_next st (Some a) None x = Inr (0, st1)
      \<and> dlist_remove st1 (head (list st1)) = Inr (0, Some x, st2)
      \<and> size' (list st2) = 0 \<and> head (list st2) = None \<and> tail (list st2) = None
      \<and> list st2 = (list st)\<lparr>head := None, tail := None\<rparr>
      \<and> heap st2 = (heap st)(a := None) \<and> calls st2 = calls st)"
  by (simp add: dlist_ins_next_def dlist_remove_def dlist_size_def load_def store_def Let_def)

theorem insert_remove_round_trip_witness:
  "\<exists>st1 st2. dlist_ins_next empty_list (Some 1) None ''x'' = Inr (0, st1)
      \<and> dlist_remove st1 (head (list st1)) = Inr (0, Some ''x'', st2)
      \<and> list st2 = list empty_list \<and> heap st2 = heap empty_list \<and> calls st2 = []"
proof -
  have 0: "size' (list empty_list) = 0" by (simp add: empty_list_def)
  from insert_remove_round_trip [OF 0, of 1 "''x''"] show ?thesis
    by (auto simp: empty_list_def)
qed

subsection \<open>The size counts the successful operations\<close>

lemma apply_op_size:
  assumes "apply_op st x = Inr (r, st')"
  shows "int (size' (list st')) = int (size' (list st))
        + int (successful_insertions [(x, r)]) - int (successful_removals [(x, r)])"
proof (cases x)
  case (InsertAfter m element d)
  with assms have "dlist_ins_next st m element d = Inr (r, st')" by simp
  from ins_next_size [OF this] show ?thesis
    by (auto simp: InsertAfter successful_insertions_def successful_removals_def)
next
  case (InsertBefore m element d)
  with assms have "dlist_ins_prev st m element d = Inr (r, st')" by simp
  from ins_prev_size [OF this] show ?thesis
    by (auto simp: InsertBefore successful_insertions_def successful_removals_def)
next
  case (Remove element)
  with assms obtain out where "dlist_remove st element = Inr (r, out, st')"
    by (auto split: sum.splits)
  from remove_size [OF this] show ?thesis
    by (auto simp: Remove successful_insertions_def successful_removals_def)
qed

lemma successful_insertions_Cons:
  "successful_insertions (p # tr) = successful_insertions [p] + successful_insertions tr"
  by (simp add: successful_insertions_def)

lemma successful_removals_Cons:
  "successful_removals (p # tr) = successful_removals [p] + successful_removals tr"
  by (simp add: successful_removals_def)

lemma run_size:
  "run st ops = Inr (tr, st') \<Longrightarrow>
     int (size' (list st')) = int (size' (list st))
        + int (successful_insertions tr) - int (successful_removals tr)"
proof (induction ops arbitrary: st tr)
  case Nil
  then show ?case by (simp add: successful_insertions_def successful_removals_def)
next
  case (Cons x xs)
  from Cons.prems obtain r st1 tr1 where
    step: "apply_op st x = Inr (r, st1)" and rest: "run st1 xs = Inr (tr1, st')"
    and tr: "tr = (x, r) # tr1"
    by (auto split: sum.splits)
  show ?case
    using apply_op_size [OF step] Cons.IH [OF rest]
    by (simp add: tr successful_insertions_Cons [of _ tr1] successful_removals_Cons [of _ tr1])
qed

text \<open>
  Claim C6. Take any sequence of insertions and removals, with any arguments and any
  outcomes of \<^verbatim>\<open>malloc\<close>, and run it on a freshly initialised list. If the run has no
  undefined behaviour, the size at the end is the number of insertions that returned 0 minus
  the number of removals that returned 0.
\<close>

theorem size_counts_successes:
  "run (dlist_init st dtor mtch) ops = Inr (tr, st') \<Longrightarrow>
     int (size' (list st')) = int (successful_insertions tr) - int (successful_removals tr)"
  using run_size [of "dlist_init st dtor mtch" ops tr st'] by (simp add: dlist_init_def)

text \<open>
  Seven calls on the empty list: a removal and two insertions that are refused, two
  insertions and two removals that go through.
\<close>

theorem size_counts_successes_witness:
  "\<exists>tr st'. run (dlist_init empty_list None None)
       [Remove None, InsertAfter (Some 1) None ''A'', InsertBefore None (Some 1) ''B'',
        InsertAfter (Some 2) (Some 1) ''B'', InsertBefore (Some 3) None ''C'',
        Remove (Some 1), Remove (Some 2)] = Inr (tr, st')
     \<and> int (size' (list st')) = int (successful_insertions tr) - int (successful_removals tr)
     \<and> successful_insertions tr = 2 \<and> successful_removals tr = 2 \<and> size' (list st') = 0"
  using size_counts_successes [of empty_list None None
      "[Remove None, InsertAfter (Some 1) None ''A'', InsertBefore None (Some 1) ''B'',
        InsertAfter (Some 2) (Some 1) ''B'', InsertBefore (Some 3) None ''C'',
        Remove (Some 1), Remove (Some 2)]"]
  by (simp add: empty_list_def dlist_init_def dlist_ins_next_def dlist_ins_prev_def
      dlist_remove_def dlist_size_def load_def store_def Let_def
      successful_insertions_def successful_removals_def)

subsection \<open>Destroying an empty list\<close>

lemma dlist_destroy_size_0:
  "size' (list st) = 0 \<Longrightarrow>
   dlist_destroy st = Some (Inr (st\<lparr>list := \<lparr>size' = 0, match = None, destroy = None,
                                              head = None, tail = None\<rparr>\<rparr>))"
  by (subst dlist_destroy.simps) (simp add: dlist_size_def)

text \<open>Whenever \<^verbatim>\<open>dlist_destroy\<close> returns, every field of the structure is zero.\<close>

lemma dlist_destroy_cleared:
  assumes "dlist_destroy st = Some res"
  shows "\<forall>st1. res = Inr st1 \<longrightarrow>
    list st1 = \<lparr>size' = 0, match = None, destroy = None, head = None, tail = None\<rparr>"
proof (rule dlist_destroy.raw_induct [where P = "\<lambda>st res. \<forall>st1. res = Inr st1 \<longrightarrow>
    list st1 = \<lparr>size' = 0, match = None, destroy = None, head = None, tail = None\<rparr>",
    OF _ assms])
  fix f :: "('a, 'b, 'c) state \<Rightarrow> (error + ('a, 'b, 'c) state) option" and st res
  assume IH: "\<And>x y. f x = Some y \<Longrightarrow> \<forall>st1. y = Inr st1 \<longrightarrow>
      list st1 = \<lparr>size' = 0, match = None, destroy = None, head = None, tail = None\<rparr>"
    and step: "(if dlist_size (list st) > 0 then
        (case dlist_remove st (dlist_tail (list st)) of
           Inl e \<Rightarrow> Some (Inl e)
         | Inr (r, out, st1) \<Rightarrow>
            if r = 0 \<and> destroy (list st1) \<noteq> None then
              (case (destroy (list st1), out) of
                 (Some g, Some d) \<Rightarrow> f (st1\<lparr>calls := calls st1 @ [(g, d)]\<rparr>)
               | (Some g, None) \<Rightarrow> Some (Inl Uninitialized_read)
               | (None, _) \<Rightarrow> Some (Inl NULL_dereference))
            else f st1)
      else
        Some (Inr (st\<lparr>list := \<lparr>size' = 0, match = None, destroy = None,
                               head = None, tail = None\<rparr>\<rparr>))) = Some res"
  show "\<forall>st1. res = Inr st1 \<longrightarrow>
      list st1 = \<lparr>size' = 0, match = None, destroy = None, head = None, tail = None\<rparr>"
    using step IH
    by (auto split: if_splits sum.splits prod.splits option.splits)
qed

text \<open>
  Claim C8, as stated, fails: \<^verbatim>\<open>dlist_destroy\<close> ends with \<^verbatim>\<open>memset\<close>, which clears the
  two callback fields too. On a list initialised with the destructor 1 and the matcher 2 it
  returns a list with neither, so it is not a no-op there.
\<close>

theorem destroy_noop_counterexample:
  "dlist_destroy (dlist_init empty_list (Some 1) (Some 2))
     = Some (Inr (dlist_init empty_list None None))
   \<and> dlist_init empty_list None None \<noteq> dlist_init empty_list (Some 1) (Some 2)
   \<and> destroy (list (dlist_init empty_list (Some 1) (Some 2))) = Some 1
   \<and> match (list (dlist_init empty_list (Some 1) (Some 2))) = Some 2
   \<and> destroy (list (dlist_init empty_list None None)) = None
   \<and> match (list (dlist_init empty_list None None)) = None"
  by (simp add: dlist_destroy_size_0 dlist_init_def empty_list_def)

text \<open>
  Claim C8, amended. \<^verbatim>\<open>dlist_destroy\<close> on a freshly initialised list returns, calls
  nothing, leaves the size zero and head and tail \<^verbatim>\<open>NULL\<close>, and clears both callbacks:
  the result is the list as initialised with no callbacks, so the call is a no-op exactly
  on a list that was initialised with none. A second \<^verbatim>\<open>dlist_destroy\<close>, on whatever
  state a first one returned, changes nothing.
\<close>

theorem destroy_empty_list:
  "dlist_destroy (dlist_init st dtor mtch) = Some (Inr (dlist_init st None None))
   \<and> dlist_destroy (dlist_init st None None) = Some (Inr (dlist_init st None None))
   \<and> (dlist_destroy s = Some (Inr s') \<longrightarrow> dlist_destroy s' = Some (Inr s'))"
proof -
  have "dlist_destroy s' = Some (Inr s')" if "dlist_destroy s = Some (Inr s')"
    using dlist_destroy_cleared [OF that] dlist_destroy_size_0 [of s'] by simp
  then show ?thesis
    by (simp add: dlist_destroy_size_0 dlist_init_def)
qed

theorem destroy_empty_list_witness:
  "dlist_destroy (dlist_init empty_list (Some 1) (Some 2)) = Some (Inr empty_list)
   \<and> dlist_destroy empty_list = Some (Inr empty_list)"
proof -
  have e: "dlist_init empty_list None None = empty_list"
    by (simp add: dlist_init_def empty_list_def)
  from destroy_empty_list [of empty_list "Some 1" "Some 2"
      "dlist_init empty_list (Some 1) (Some 2)" empty_list]
  show ?thesis unfolding e by blast
qed


section \<open>Well-formed lists\<close>

subsection \<open>Link fields and segments\<close>

lemma next_of_upd [simp]: "next_of (h(a \<mapsto> c)) = (next_of h)(a \<mapsto> next c)"
  by (auto simp: next_of_def)

lemma prev_of_upd [simp]: "prev_of (h(a \<mapsto> c)) = (prev_of h)(a \<mapsto> prev c)"
  by (auto simp: prev_of_def)

lemma next_of_free [simp]: "next_of (h(a := None)) = (next_of h)(a := None)"
  by (auto simp: next_of_def)

lemma prev_of_free [simp]: "prev_of (h(a := None)) = (prev_of h)(a := None)"
  by (auto simp: prev_of_def)

lemma seg_append: "seg lk x (as @ bs) z = (\<exists>y. seg lk x as y \<and> seg lk y bs z)"
  by (induction as arbitrary: x) (auto split: option.splits)

lemma seg_upd_notin: "a \<notin> set as \<Longrightarrow> seg (lk(a := v)) x as y = seg lk x as y"
  by (induction as arbitrary: x) (auto split: option.splits)

lemma seg_allocated: "seg lk x as y \<Longrightarrow> a \<in> set as \<Longrightarrow> lk a \<noteq> None"
  by (induction as arbitrary: x) (auto split: option.splits)

text \<open>The links are functions, so a pointer starts at most one segment that ends in \<^verbatim>\<open>NULL\<close>.\<close>

lemma seg_functional: "seg lk x as None \<Longrightarrow> seg lk x bs None \<Longrightarrow> as = bs"
proof (induction as arbitrary: x bs)
  case Nil
  then show ?case by (cases bs) auto
next
  case (Cons a as)
  then show ?case by (cases bs) (auto split: option.splits)
qed

text \<open>A segment that ends in \<^verbatim>\<open>NULL\<close> visits no element twice: it would go round for ever.\<close>

lemma seg_distinct: "seg lk x as None \<Longrightarrow> distinct as"
proof (induction as arbitrary: x)
  case Nil
  then show ?case by simp
next
  case (Cons a as)
  then obtain n where n: "lk a = Some n" "seg lk n as None"
    by (auto split: option.splits)
  have "a \<notin> set as"
  proof
    assume "a \<in> set as"
    then obtain us vs where as: "as = us @ a # vs" by (auto simp: in_set_conv_decomp)
    with n have "seg lk n vs None" by (auto simp: seg_append)
    with n(2) have "as = vs" by (rule seg_functional)
    with as show False by simp
  qed
  with Cons.IH [OF n(2)] show ?case by simp
qed

lemma scan_seg: "scan lk n x = Some as \<longleftrightarrow> seg lk x as None \<and> length as \<le> n"
proof (induction n arbitrary: x as)
  case 0
  then show ?case by (cases x; cases as) auto
next
  case (Suc n)
  show ?case
  proof (cases x)
    case None
    then show ?thesis by (cases as) auto
  next
    case (Some a)
    show ?thesis
    proof (cases "lk a")
      case None
      with Some show ?thesis by (cases as) auto
    next
      case lk: (Some y)
      show ?thesis
      proof (cases as)
        case Nil
        with Some lk show ?thesis by (auto split: option.splits)
      next
        case (Cons b bs)
        with Some lk Suc.IH [of y bs] show ?thesis by (auto split: option.splits)
      qed
    qed
  qed
qed

text \<open>
  Going forward along \<open>nx\<close>, with every element the previous one of its next element,
  gives the reversed segment along \<open>pv\<close>.
\<close>

lemma seg_back:
  "seg nx x (a # as) None \<Longrightarrow>
   \<forall>e\<in>set (a # as). (case nx e of Some (Some n) \<Rightarrow> pv n = Some (Some e) | _ \<Rightarrow> True) \<Longrightarrow>
   pv a = Some p \<Longrightarrow>
   seg pv (Some (last (a # as))) (rev (a # as)) p"
proof (induction as arbitrary: a p x)
  case Nil
  then show ?case by simp
next
  case (Cons b bs)
  from Cons.prems(1) have nxa: "nx a = Some (Some b)" and rest: "seg nx (Some b) (b # bs) None"
    by (auto split: option.splits)
  from Cons.prems(2) nxa have pvb: "pv b = Some (Some a)" by simp
  from Cons.prems(2) have links:
    "\<forall>e\<in>set (b # bs). (case nx e of Some (Some n) \<Rightarrow> pv n = Some (Some e) | _ \<Rightarrow> True)"
    by simp
  have "seg pv (Some (last (b # bs))) (rev (b # bs)) (Some a)"
    by (rule Cons.IH [OF rest links pvb])
  moreover have "seg pv (Some a) [a] p" using Cons.prems(3) by simp
  ultimately have "seg pv (Some (last (b # bs))) (rev (b # bs) @ [a]) p"
    unfolding seg_append by blast
  then show ?case by simp
qed

lemma seg_last:
  assumes "seg nx x fs None" "t \<in> set fs" "nx t = Some None"
  shows "fs \<noteq> [] \<and> t = last fs"
proof -
  from assms(2) obtain us vs where fs: "fs = us @ t # vs" by (auto simp: in_set_conv_decomp)
  with assms(1,3) have "seg nx None vs None" by (auto simp: seg_append)
  then have "vs = []" by (cases vs) auto
  with fs show ?thesis by simp
qed

subsection \<open>The invariants and the abstraction say the same\<close>

lemma inv_repr:
  assumes "dlist_inv st"
  shows "dlist_repr st (dlist_elements st)"
proof -
  let ?l = "list st"
  let ?nx = "next_of (heap st)"
  let ?pv = "prev_of (heap st)"
  from assms have hd: "case head ?l of None \<Rightarrow> True | Some a \<Rightarrow> ?pv a = Some None"
    and tl: "case tail ?l of None \<Rightarrow> True | Some a \<Rightarrow> ?nx a = Some None"
    and sc: "case (scan ?nx (size' ?l) (head ?l), scan ?pv (size' ?l) (tail ?l)) of
         (Some fs, Some bs) \<Rightarrow>
            length fs = size' ?l \<and> length bs = size' ?l \<and> set fs = set bs \<and>
            (\<forall>e\<in>set fs.
               (case ?nx e of Some (Some n) \<Rightarrow> ?pv n = Some (Some e) | _ \<Rightarrow> True) \<and>
               (case ?pv e of Some (Some p) \<Rightarrow> ?nx p = Some (Some e) | _ \<Rightarrow> True))
       | _ \<Rightarrow> False"
    unfolding dlist_inv_def Let_def by blast+
  from sc obtain fs bs where
    sf: "scan ?nx (size' ?l) (head ?l) = Some fs" and sb: "scan ?pv (size' ?l) (tail ?l) = Some bs"
    by (cases "scan ?nx (size' ?l) (head ?l)"; cases "scan ?pv (size' ?l) (tail ?l)") simp_all
  from sc have lf: "length fs = size' ?l" and lb: "length bs = size' ?l" and mem: "set fs = set bs"
    and links: "\<forall>e\<in>set fs. (case ?nx e of Some (Some n) \<Rightarrow> ?pv n = Some (Some e) | _ \<Rightarrow> True)"
    unfolding sf sb by simp_all
  from sf have f: "seg ?nx (head ?l) fs None" by (simp add: scan_seg)
  from sb have b: "seg ?pv (tail ?l) bs None" by (simp add: scan_seg)
  have el: "dlist_elements st = fs"
    using sf by (simp add: dlist_elements_def)
  have "seg ?pv (tail ?l) (rev fs) None"
  proof (cases fs)
    case Nil
    with lf lb b show ?thesis by simp
  next
    case (Cons a as)
    with f have ha: "head ?l = Some a" by simp
    with hd have pa: "?pv a = Some None" by simp
    from Cons lf lb obtain t bs' where bs: "bs = t # bs'" by (cases bs) auto
    with b have tt: "tail ?l = Some t" by simp
    with tl have nt: "?nx t = Some None" by simp
    from bs mem have "t \<in> set fs" by simp
    from seg_last [OF f this nt] have "t = last fs" by simp
    moreover have "seg ?pv (Some (last fs)) (rev fs) None"
      using seg_back [OF f [unfolded Cons] links [unfolded Cons] pa] Cons by simp
    ultimately show ?thesis using tt by simp
  qed
  with f lf show ?thesis
    by (simp add: dlist_repr_def el)
qed

lemma repr_elements:
  assumes "dlist_repr st as"
  shows "dlist_elements st = as"
proof -
  from assms have "scan (next_of (heap st)) (size' (list st)) (head (list st)) = Some as"
    by (simp add: dlist_repr_def scan_seg)
  then show ?thesis by (simp add: dlist_elements_def)
qed

lemma repr_inv:
  assumes repr: "dlist_repr st as"
  shows "dlist_inv st"
proof -
  let ?l = "list st"
  let ?nx = "next_of (heap st)"
  let ?pv = "prev_of (heap st)"
  from repr have f: "seg ?nx (head ?l) as None" and b: "seg ?pv (tail ?l) (rev as) None"
    and sz: "size' ?l = length as"
    by (simp_all add: dlist_repr_def)
  have sf: "scan ?nx (size' ?l) (head ?l) = Some as"
    using f sz by (simp add: scan_seg)
  have sb: "scan ?pv (size' ?l) (tail ?l) = Some (rev as)"
    using b sz by (simp add: scan_seg)
  have empty: "(size' ?l = 0) = (head ?l = None \<and> tail ?l = None)"
    using f b sz by (cases as) (auto simp: seg_append)
  have hd: "case head ?l of None \<Rightarrow> True | Some a \<Rightarrow> ?pv a = Some None"
    using f b by (cases as) (auto simp: seg_append split: option.splits)
  have tl: "case tail ?l of None \<Rightarrow> True | Some a \<Rightarrow> ?nx a = Some None"
    using f b by (cases as rule: rev_cases) (auto simp: seg_append split: option.splits)
  have links: "(case ?nx e of Some (Some n) \<Rightarrow> ?pv n = Some (Some e) | _ \<Rightarrow> True) \<and>
               (case ?pv e of Some (Some p) \<Rightarrow> ?nx p = Some (Some e) | _ \<Rightarrow> True)"
    if "e \<in> set as" for e
  proof -
    from that obtain xs ys where as: "as = xs @ e # ys" by (auto simp: in_set_conv_decomp)
    have 1: "?pv n = Some (Some e)" if "?nx e = Some (Some n)" for n
    proof -
      from f that as obtain ys' where "ys = n # ys'"
        by (cases ys) (auto simp: seg_append)
      with b as show ?thesis by (auto simp: seg_append split: option.splits)
    qed
    have 2: "?nx p = Some (Some e)" if "?pv e = Some (Some p)" for p
    proof -
      from b that as obtain xs' where "xs = xs' @ [p]"
        by (cases xs rule: rev_cases) (auto simp: seg_append)
      with f as show ?thesis by (auto simp: seg_append split: option.splits)
    qed
    from 1 2 show ?thesis by (auto split: option.splits)
  qed
  show ?thesis
    unfolding dlist_inv_def Let_def sf sb
    using empty hd tl sz links by simp
qed

subsection \<open>What the operations do to a well-formed list\<close>

lemma repr_split:
  assumes "dlist_repr st (xs @ e # ys)"
  obtains ce where
    "heap st e = Some ce"
    "seg (next_of (heap st)) (head (list st)) xs (Some e)"
    "seg (next_of (heap st)) (next ce) ys None"
    "seg (prev_of (heap st)) (tail (list st)) (rev ys) (Some e)"
    "seg (prev_of (heap st)) (prev ce) (rev xs) None"
    "size' (list st) = Suc (length xs + length ys)"
    "distinct (xs @ e # ys)"
    "\<forall>a\<in>set (xs @ e # ys). heap st a \<noteq> None"
proof -
  from assms have f: "seg (next_of (heap st)) (head (list st)) (xs @ e # ys) None"
    and b: "seg (prev_of (heap st)) (tail (list st)) (rev ys @ e # rev xs) None"
    and s: "size' (list st) = Suc (length xs + length ys)"
    by (auto simp: dlist_repr_def)
  from f have d: "distinct (xs @ e # ys)" by (rule seg_distinct)
  have al: "\<forall>a\<in>set (xs @ e # ys). heap st a \<noteq> None"
    using seg_allocated [OF f] by (auto simp: next_of_def)
  from f b obtain ce where "heap st e = Some ce"
    "seg (next_of (heap st)) (head (list st)) xs (Some e)"
    "seg (next_of (heap st)) (next ce) ys None"
    "seg (prev_of (heap st)) (tail (list st)) (rev ys) (Some e)"
    "seg (prev_of (heap st)) (prev ce) (rev xs) None"
    by (auto simp: seg_append next_of_def prev_of_def split: option.splits)
  with s d al show ?thesis using that by blast
qed

text \<open>An insertion into the empty list: the reference is not looked at.\<close>

lemma ins_empty:
  assumes "size' (list st) = 0"
  shows "\<exists>st'. dlist_ins_next st (Some n) element d = Inr (0, st')
     \<and> dlist_ins_prev st (Some n) element d = Inr (0, st')
     \<and> dlist_repr st' [n]
     \<and> calls st' = calls st \<and> destroy (list st') = destroy (list st)
     \<and> match (list st') = match (list st)
     \<and> payload st' (Some n) = Some d
     \<and> (\<forall>a. a \<noteq> n \<longrightarrow> payload st' (Some a) = payload st (Some a))"
  using assms
  by (simp add: dlist_ins_next_def dlist_ins_prev_def dlist_size_def load_def store_def Let_def
      dlist_repr_def payload_def)

text \<open>\<^verbatim>\<open>dlist_ins_next\<close> puts the new element right after the member \<open>e\<close>.\<close>

lemma ins_next_repr:
  assumes repr: "dlist_repr st (xs @ e # ys)" and fresh: "heap st n = None"
  shows "\<exists>st'. dlist_ins_next st (Some n) (Some e) d = Inr (0, st')
     \<and> dlist_repr st' (xs @ e # n # ys)
     \<and> calls st' = calls st \<and> destroy (list st') = destroy (list st)
     \<and> match (list st') = match (list st)
     \<and> payload st' (Some n) = Some d
     \<and> (\<forall>a. a \<noteq> n \<longrightarrow> payload st' (Some a) = payload st (Some a))"
proof -
  from repr obtain ce where ce: "heap st e = Some ce"
    and f1: "seg (next_of (heap st)) (head (list st)) xs (Some e)"
    and f2: "seg (next_of (heap st)) (next ce) ys None"
    and b1: "seg (prev_of (heap st)) (tail (list st)) (rev ys) (Some e)"
    and b2: "seg (prev_of (heap st)) (prev ce) (rev xs) None"
    and sz: "size' (list st) = Suc (length xs + length ys)"
    and dist: "distinct (xs @ e # ys)"
    and al: "\<forall>a\<in>set (xs @ e # ys). heap st a \<noteq> None"
    by (rule repr_split)
  from al fresh have "n \<notin> set (xs @ e # ys)" by blast
  then have nn: "n \<notin> set xs" "n \<noteq> e" "n \<notin> set ys" by simp_all
  show ?thesis
  proof (cases ys)
    case Nil
    with f2 b1 have nx: "next ce = None" and tl: "tail (list st) = Some e" by auto
    show ?thesis
      using ce nx tl sz nn dist f1 b2 Nil
      by (simp add: dlist_ins_next_def dlist_size_def load_def store_def Let_def
          dlist_repr_def seg_append seg_upd_notin payload_def)
  next
    case (Cons y ys')
    with f2 b1 obtain cy where nx: "next ce = Some y" and cy: "heap st y = Some cy"
      and f3: "seg (next_of (heap st)) (next cy) ys' None"
      and b3: "seg (prev_of (heap st)) (tail (list st)) (rev ys') (Some y)"
      and py: "prev cy = Some e"
      by (auto simp: seg_append next_of_def prev_of_def split: option.splits)
    show ?thesis
      using ce nx cy py sz nn dist f1 f3 b2 b3 Cons
      by (simp add: dlist_ins_next_def dlist_size_def load_def store_def Let_def
          dlist_repr_def seg_append seg_upd_notin payload_def)
  qed
qed

text \<open>\<^verbatim>\<open>dlist_ins_prev\<close> puts the new element right before the member \<open>e\<close>.\<close>

lemma ins_prev_repr:
  assumes repr: "dlist_repr st (xs @ e # ys)" and fresh: "heap st n = None"
  shows "\<exists>st'. dlist_ins_prev st (Some n) (Some e) d = Inr (0, st')
     \<and> dlist_repr st' (xs @ n # e # ys)
     \<and> calls st' = calls st \<and> destroy (list st') = destroy (list st)
     \<and> match (list st') = match (list st)
     \<and> payload st' (Some n) = Some d
     \<and> (\<forall>a. a \<noteq> n \<longrightarrow> payload st' (Some a) = payload st (Some a))"
proof -
  from repr obtain ce where ce: "heap st e = Some ce"
    and f1: "seg (next_of (heap st)) (head (list st)) xs (Some e)"
    and f2: "seg (next_of (heap st)) (next ce) ys None"
    and b1: "seg (prev_of (heap st)) (tail (list st)) (rev ys) (Some e)"
    and b2: "seg (prev_of (heap st)) (prev ce) (rev xs) None"
    and sz: "size' (list st) = Suc (length xs + length ys)"
    and dist: "distinct (xs @ e # ys)"
    and al: "\<forall>a\<in>set (xs @ e # ys). heap st a \<noteq> None"
    by (rule repr_split)
  from al fresh have "n \<notin> set (xs @ e # ys)" by blast
  then have nn: "n \<notin> set xs" "n \<noteq> e" "n \<notin> set ys" by simp_all
  show ?thesis
  proof (cases xs rule: rev_cases)
    case Nil
    with f1 b2 have pv: "prev ce = None" and hd: "head (list st) = Some e" by auto
    show ?thesis
      using ce pv hd sz nn dist f2 b1 Nil
      by (simp add: dlist_ins_prev_def dlist_size_def load_def store_def Let_def
          dlist_repr_def seg_append seg_upd_notin payload_def)
  next
    case (snoc xs' p)
    with f1 b2 obtain cp where pv: "prev ce = Some p" and cp: "heap st p = Some cp"
      and f3: "seg (next_of (heap st)) (head (list st)) xs' (Some p)"
      and b3: "seg (prev_of (heap st)) (prev cp) (rev xs') None"
      and np: "next cp = Some e"
      by (auto simp: seg_append next_of_def prev_of_def split: option.splits)
    show ?thesis
      using ce pv cp np sz nn dist f2 f3 b1 b3 snoc
      by (simp add: dlist_ins_prev_def dlist_size_def load_def store_def Let_def
          dlist_repr_def seg_append seg_upd_notin payload_def)
  qed
qed

text \<open>\<^verbatim>\<open>dlist_remove\<close> takes the member \<open>e\<close> out and hands its payload back.\<close>

lemma remove_repr:
  assumes repr: "dlist_repr st (xs @ e # ys)"
  shows "\<exists>st'. dlist_remove st (Some e) = Inr (0, payload st (Some e), st')
     \<and> dlist_repr st' (xs @ ys)
     \<and> calls st' = calls st \<and> destroy (list st') = destroy (list st)
     \<and> match (list st') = match (list st)
     \<and> payload st (Some e) \<noteq> None
     \<and> payload st' (Some e) = None
     \<and> (\<forall>a. a \<noteq> e \<longrightarrow> payload st' (Some a) = payload st (Some a))"
proof -
  from repr obtain ce where ce: "heap st e = Some ce"
    and f1: "seg (next_of (heap st)) (head (list st)) xs (Some e)"
    and f2: "seg (next_of (heap st)) (next ce) ys None"
    and b1: "seg (prev_of (heap st)) (tail (list st)) (rev ys) (Some e)"
    and b2: "seg (prev_of (heap st)) (prev ce) (rev xs) None"
    and sz: "size' (list st) = Suc (length xs + length ys)"
    and dist: "distinct (xs @ e # ys)"
    and al: "\<forall>a\<in>set (xs @ e # ys). heap st a \<noteq> None"
    by (rule repr_split)
  show ?thesis
  proof (cases xs rule: rev_cases)
    case Nil
    with f1 b2 have pv: "prev ce = None" and hd: "head (list st) = Some e" by auto
    show ?thesis
    proof (cases ys)
      case Nil
      with f2 b1 have nx: "next ce = None" and tl: "tail (list st) = Some e" by auto
      show ?thesis
        using ce pv hd nx tl sz \<open>xs = []\<close> Nil
        by (simp add: dlist_remove_def dlist_size_def load_def store_def Let_def
            dlist_repr_def payload_def)
    next
      case (Cons y ys')
      with f2 b1 obtain cy where nx: "next ce = Some y" and cy: "heap st y = Some cy"
        and f3: "seg (next_of (heap st)) (next cy) ys' None"
        and b3: "seg (prev_of (heap st)) (tail (list st)) (rev ys') (Some y)"
        and py: "prev cy = Some e"
        by (auto simp: seg_append next_of_def prev_of_def split: option.splits)
      show ?thesis
        using ce pv hd nx cy py sz dist f3 b3 \<open>xs = []\<close> Cons
        by (simp add: dlist_remove_def dlist_size_def load_def store_def Let_def
            dlist_repr_def seg_append seg_upd_notin payload_def)
    qed
  next
    case (snoc xs' p)
    with f1 b2 obtain cp where pv: "prev ce = Some p" and cp: "heap st p = Some cp"
      and f3: "seg (next_of (heap st)) (head (list st)) xs' (Some p)"
      and b3: "seg (prev_of (heap st)) (prev cp) (rev xs') None"
      and np: "next cp = Some e"
      by (auto simp: seg_append next_of_def prev_of_def split: option.splits)
    have hd: "head (list st) \<noteq> Some e"
      using f3 dist snoc by (cases xs') auto
    show ?thesis
    proof (cases ys)
      case Nil
      with f2 b1 have nx: "next ce = None" and tl: "tail (list st) = Some e" by auto
      show ?thesis
        using ce pv cp np hd nx tl sz dist f3 b3 snoc Nil
        by (simp add: dlist_remove_def dlist_size_def load_def store_def Let_def
            dlist_repr_def seg_append seg_upd_notin payload_def)
    next
      case (Cons y ys')
      with f2 b1 obtain cy where nx: "next ce = Some y" and cy: "heap st y = Some cy"
        and f4: "seg (next_of (heap st)) (next cy) ys' None"
        and b4: "seg (prev_of (heap st)) (tail (list st)) (rev ys') (Some y)"
        and py: "prev cy = Some e"
        by (auto simp: seg_append next_of_def prev_of_def split: option.splits)
      show ?thesis
        using ce pv cp np hd nx cy py sz dist f3 b3 f4 b4 snoc Cons
        by (simp add: dlist_remove_def dlist_size_def load_def store_def Let_def
            dlist_repr_def seg_append seg_upd_notin payload_def)
    qed
  qed
qed

lemma member_split:
  assumes "dlist_inv st" "e \<in> set (dlist_elements st)"
  obtains xs ys where "dlist_elements st = xs @ e # ys" "dlist_repr st (xs @ e # ys)"
proof -
  from assms(2) obtain xs ys where el: "dlist_elements st = xs @ e # ys"
    by (auto simp: in_set_conv_decomp)
  with inv_repr [OF assms(1)] have "dlist_repr st (xs @ e # ys)" by simp
  with el show ?thesis using that by blast
qed


section \<open>The claims about well-formed lists\<close>

text \<open>
  Claim C1. Take a list that satisfies the structural invariants: the size is zero exactly
  when head and tail are \<^verbatim>\<open>NULL\<close>, the head element has no previous and the tail element
  no next element, every element with a next element is the previous element of it and
  every element with a previous element is the next element of it, and the forward scan
  from the head and the backward scan from the tail each visit exactly \<^verbatim>\<open>size\<close> elements,
  the same ones. Let the element argument be \<^verbatim>\<open>NULL\<close> or, when the list is not empty, a
  member of the list, and let \<^verbatim>\<open>malloc\<close> return \<^verbatim>\<open>NULL\<close> or an address that is not
  allocated. Then each of \<^verbatim>\<open>dlist_ins_next\<close>, \<^verbatim>\<open>dlist_ins_prev\<close> and \<^verbatim>\<open>dlist_remove\<close>
  returns, with no undefined behaviour, and the state it leaves, after a successful call
  and after a refused one, satisfies the invariants.
\<close>

theorem structural_invariants_preserved:
  assumes inv: "dlist_inv st"
    and fresh: "case m of None \<Rightarrow> True | Some new \<Rightarrow> heap st new = None"
    and member: "case element of None \<Rightarrow> True
                 | Some e \<Rightarrow> size' (list st) = 0 \<or> e \<in> set (dlist_elements st)"
  shows "(\<exists>r st'. dlist_ins_next st m element d = Inr (r, st') \<and> dlist_inv st')
       \<and> (\<exists>r st'. dlist_ins_prev st m element d = Inr (r, st') \<and> dlist_inv st')
       \<and> (\<exists>r out st'. dlist_remove st element = Inr (r, out, st') \<and> dlist_inv st')"
proof -
  have fail: "element = None \<and> size' (list st) \<noteq> 0 \<or> m = None \<Longrightarrow>
      dlist_ins_next st m element d = Inr (- 1, st)
      \<and> dlist_ins_prev st m element d = Inr (- 1, st)"
    by (auto simp: dlist_ins_next_def dlist_ins_prev_def dlist_size_def)
  have rfail: "element = None \<or> size' (list st) = 0 \<Longrightarrow>
      dlist_remove st element = Inr (- 1, None, st)"
    by (auto simp: dlist_remove_def dlist_size_def)
  show ?thesis
  proof (cases "element = None \<and> size' (list st) \<noteq> 0 \<or> m = None")
    case True
    from fail [OF True] have ins: "dlist_ins_next st m element d = Inr (- 1, st)"
      "dlist_ins_prev st m element d = Inr (- 1, st)" by simp_all
    show ?thesis
    proof (cases "element = None \<or> size' (list st) = 0")
      case True
      from rfail [OF this] ins inv show ?thesis by simp
    next
      case False
      with member obtain e where e: "element = Some e" "e \<in> set (dlist_elements st)"
        by (auto split: option.splits)
      from inv e(2) obtain xs ys where "dlist_repr st (xs @ e # ys)" by (rule member_split)
      from remove_repr [OF this] e ins inv show ?thesis by (auto intro: repr_inv)
    qed
  next
    case False
    then obtain n where m: "m = Some n" by auto
    with fresh have fr: "heap st n = None" by simp
    show ?thesis
    proof (cases "size' (list st) = 0")
      case True
      from ins_empty [OF True, of n element d] rfail True inv m
      show ?thesis by (auto intro: repr_inv)
    next
      case nz: False
      with False member obtain e where e: "element = Some e" "e \<in> set (dlist_elements st)"
        by (auto split: option.splits)
      from inv e(2) obtain xs ys where rr: "dlist_repr st (xs @ e # ys)" by (rule member_split)
      from remove_repr [OF rr] ins_next_repr [OF rr fr, of d] ins_prev_repr [OF rr fr, of d] e m
      show ?thesis by (auto intro: repr_inv)
    qed
  qed
qed

text \<open>
  On the list of two elements: an insertion after the head, an insertion before the head
  and the removal of the head.
\<close>

theorem structural_invariants_preserved_witness:
  "dlist_inv two_element_list \<and>
   (\<exists>st'. dlist_ins_next two_element_list (Some 3) (Some 1) ''C'' = Inr (0, st') \<and> dlist_inv st') \<and>
   (\<exists>st'. dlist_ins_prev two_element_list (Some 3) (Some 1) ''C'' = Inr (0, st') \<and> dlist_inv st') \<and>
   (\<exists>out st'. dlist_remove two_element_list (Some 1) = Inr (0, out, st') \<and> dlist_inv st')"
proof -
  have 1: "dlist_inv two_element_list"
    by (simp add: dlist_inv_def two_element_list_def next_of_def prev_of_def numeral_2_eq_2
        insert_commute)
  have 2: "case Some (3::nat) of None \<Rightarrow> True | Some new \<Rightarrow> heap two_element_list new = None"
    by (simp add: two_element_list_def)
  have 3: "case Some (1::nat) of None \<Rightarrow> True
       | Some e \<Rightarrow> size' (list two_element_list) = 0 \<or> e \<in> set (dlist_elements two_element_list)"
    by (simp add: dlist_elements_def two_element_list_def next_of_def numeral_2_eq_2)
  from structural_invariants_preserved [OF 1 2 3, of "''C''"] obtain r1 s1 r2 s2 r3 out s3 where
    a: "dlist_ins_next two_element_list (Some 3) (Some 1) ''C'' = Inr (r1, s1)" "dlist_inv s1"
    and b: "dlist_ins_prev two_element_list (Some 3) (Some 1) ''C'' = Inr (r2, s2)" "dlist_inv s2"
    and c: "dlist_remove two_element_list (Some 1) = Inr (r3, out, s3)" "dlist_inv s3"
    by blast
  have "\<exists>s. dlist_ins_next two_element_list (Some 3) (Some 1) ''C'' = Inr (0, s)"
    by (simp add: two_element_list_def dlist_ins_next_def dlist_size_def load_def store_def
        Let_def)
  with a(1) have "r1 = 0" by auto
  moreover have "\<exists>s. dlist_ins_prev two_element_list (Some 3) (Some 1) ''C'' = Inr (0, s)"
    by (simp add: two_element_list_def dlist_ins_prev_def dlist_size_def load_def store_def
        Let_def)
  with b(1) have "r2 = 0" by auto
  moreover have "\<exists>x s. dlist_remove two_element_list (Some 1) = Inr (0, x, s)"
    by (simp add: two_element_list_def dlist_remove_def dlist_size_def load_def store_def
        Let_def)
  with c(1) have "r3 = 0" by auto
  ultimately show ?thesis using 1 a b c by blast
qed

text \<open>
  Claim C2, amended. Each insertion returns -1 exactly when the element is \<^verbatim>\<open>NULL\<close> while
  the list is not empty, or the allocation fails, and then the state is as it was. No other
  value than 0 and -1 is returned. On an empty list, when the allocation gives the address
  \<open>a\<close>, the insertion returns 0 whatever the element argument is, and the new element is
  the sole element: the size is 1, head and tail are both \<open>a\<close>, the element at \<open>a\<close> holds
  the payload and has no previous and no next element, nothing else in the store, the
  callbacks or the call log changes, and the invariants hold. On a list that satisfies the
  invariants, with a member \<open>e\<close> as the element and a newly allocated address \<open>n\<close>, the
  insertion returns 0, the invariants hold again, the new element holds the payload and
  stands right after \<open>e\<close> (\<^verbatim>\<open>dlist_ins_next\<close>) or right before it (\<^verbatim>\<open>dlist_ins_prev\<close>)
  in the sequence of elements, and the other payloads are as they were.
\<close>

theorem insert_refusal_cases:
  "(dlist_ins_next st m element d = Inr (- 1, st')
      \<longleftrightarrow> ((element = None \<and> size' (list st) \<noteq> 0) \<or> m = None) \<and> st' = st)
   \<and> (dlist_ins_prev st m element d = Inr (- 1, st')
      \<longleftrightarrow> ((element = None \<and> size' (list st) \<noteq> 0) \<or> m = None) \<and> st' = st)
   \<and> (dlist_ins_next st m element d = Inr (r, st') \<longrightarrow> r = 0 \<or> r = - 1)
   \<and> (dlist_ins_prev st m element d = Inr (r, st') \<longrightarrow> r = 0 \<or> r = - 1)
   \<and> (size' (list st) = 0 \<and> m = Some a \<longrightarrow>
        (\<exists>st1. dlist_ins_next st m element d = Inr (0, st1)
           \<and> list st1 = \<lparr>size' = 1, match = match (list st), destroy = destroy (list st),
                          head = Some a, tail = Some a\<rparr>
           \<and> heap st1 = (heap st)(a \<mapsto> \<lparr>data = d, prev = None, next = None\<rparr>)
           \<and> calls st1 = calls st
           \<and> dlist_elements st1 = [a] \<and> dlist_inv st1)
      \<and> (\<exists>st1. dlist_ins_prev st m element d = Inr (0, st1)
           \<and> list st1 = \<lparr>size' = 1, match = match (list st), destroy = destroy (list st),
                          head = Some a, tail = Some a\<rparr>
           \<and> heap st1 = (heap st)(a \<mapsto> \<lparr>data = d, prev = None, next = None\<rparr>)
           \<and> calls st1 = calls st
           \<and> dlist_elements st1 = [a] \<and> dlist_inv st1))
   \<and> (dlist_inv st \<and> dlist_elements st = xs @ e # ys \<and> heap st n = None \<longrightarrow>
        (\<exists>st1. dlist_ins_next st (Some n) (Some e) d = Inr (0, st1)
           \<and> dlist_inv st1 \<and> dlist_elements st1 = xs @ e # n # ys
           \<and> size' (list st1) = size' (list st) + 1
           \<and> payload st1 (Some n) = Some d
           \<and> (\<forall>b. b \<noteq> n \<longrightarrow> payload st1 (Some b) = payload st (Some b))
           \<and> calls st1 = calls st \<and> destroy (list st1) = destroy (list st)
           \<and> match (list st1) = match (list st))
      \<and> (\<exists>st1. dlist_ins_prev st (Some n) (Some e) d = Inr (0, st1)
           \<and> dlist_inv st1 \<and> dlist_elements st1 = xs @ n # e # ys
           \<and> size' (list st1) = size' (list st) + 1
           \<and> payload st1 (Some n) = Some d
           \<and> (\<forall>b. b \<noteq> n \<longrightarrow> payload st1 (Some b) = payload st (Some b))
           \<and> calls st1 = calls st \<and> destroy (list st1) = destroy (list st)
           \<and> match (list st1) = match (list st)))"
proof -
  have 1: "(dlist_ins_next st m element d = Inr (- 1, st')
      \<longleftrightarrow> ((element = None \<and> size' (list st) \<noteq> 0) \<or> m = None) \<and> st' = st)"
    by (auto simp: dlist_ins_next_def dlist_size_def load_def store_def Let_def
        split: option.splits sum.splits if_splits prod.splits)
  have 2: "(dlist_ins_prev st m element d = Inr (- 1, st')
      \<longleftrightarrow> ((element = None \<and> size' (list st) \<noteq> 0) \<or> m = None) \<and> st' = st)"
    by (auto simp: dlist_ins_prev_def dlist_size_def load_def store_def Let_def
        split: option.splits sum.splits if_splits prod.splits)
  have 3: "dlist_ins_next st m element d = Inr (r, st') \<longrightarrow> r = 0 \<or> r = - 1"
    using ins_next_size [of st m element d r st'] by blast
  have 4: "dlist_ins_prev st m element d = Inr (r, st') \<longrightarrow> r = 0 \<or> r = - 1"
    using ins_prev_size [of st m element d r st'] by blast
  have 5: "(\<exists>st1. dlist_ins_next st m element d = Inr (0, st1)
           \<and> list st1 = \<lparr>size' = 1, match = match (list st), destroy = destroy (list st),
                          head = Some a, tail = Some a\<rparr>
           \<and> heap st1 = (heap st)(a \<mapsto> \<lparr>data = d, prev = None, next = None\<rparr>)
           \<and> calls st1 = calls st
           \<and> dlist_elements st1 = [a] \<and> dlist_inv st1)
      \<and> (\<exists>st1. dlist_ins_prev st m element d = Inr (0, st1)
           \<and> list st1 = \<lparr>size' = 1, match = match (list st), destroy = destroy (list st),
                          head = Some a, tail = Some a\<rparr>
           \<and> heap st1 = (heap st)(a \<mapsto> \<lparr>data = d, prev = None, next = None\<rparr>)
           \<and> calls st1 = calls st
           \<and> dlist_elements st1 = [a] \<and> dlist_inv st1)"
    if "size' (list st) = 0 \<and> m = Some a"
  proof -
    from that have z: "size' (list st) = 0" and m: "m = Some a" by simp_all
    define st1 where "st1 = st\<lparr>list := \<lparr>size' = 1, match = match (list st),
        destroy = destroy (list st), head = Some a, tail = Some a\<rparr>,
      heap := (heap st)(a \<mapsto> \<lparr>data = d, prev = None, next = None\<rparr>)\<rparr>"
    have n: "dlist_ins_next st m element d = Inr (0, st1)"
      using z by (simp add: m st1_def dlist_ins_next_def dlist_size_def store_def Let_def)
    have p: "dlist_ins_prev st m element d = Inr (0, st1)"
      using z by (simp add: m st1_def dlist_ins_prev_def dlist_size_def store_def Let_def)
    have r: "dlist_repr st1 [a]"
      by (simp add: st1_def dlist_repr_def)
    from n p repr_inv [OF r] repr_elements [OF r] show ?thesis
      by (simp add: st1_def)
  qed
  have 6: "(\<exists>st1. dlist_ins_next st (Some n) (Some e) d = Inr (0, st1)
           \<and> dlist_inv st1 \<and> dlist_elements st1 = xs @ e # n # ys
           \<and> size' (list st1) = size' (list st) + 1
           \<and> payload st1 (Some n) = Some d
           \<and> (\<forall>b. b \<noteq> n \<longrightarrow> payload st1 (Some b) = payload st (Some b))
           \<and> calls st1 = calls st \<and> destroy (list st1) = destroy (list st)
           \<and> match (list st1) = match (list st))
      \<and> (\<exists>st1. dlist_ins_prev st (Some n) (Some e) d = Inr (0, st1)
           \<and> dlist_inv st1 \<and> dlist_elements st1 = xs @ n # e # ys
           \<and> size' (list st1) = size' (list st) + 1
           \<and> payload st1 (Some n) = Some d
           \<and> (\<forall>b. b \<noteq> n \<longrightarrow> payload st1 (Some b) = payload st (Some b))
           \<and> calls st1 = calls st \<and> destroy (list st1) = destroy (list st)
           \<and> match (list st1) = match (list st))"
    if "dlist_inv st \<and> dlist_elements st = xs @ e # ys \<and> heap st n = None"
  proof -
    from that inv_repr [of st] have rr: "dlist_repr st (xs @ e # ys)" by simp
    from that have fr: "heap st n = None" by simp
    from rr have sz: "size' (list st) = Suc (length xs + length ys)"
      by (simp add: dlist_repr_def)
    from ins_next_repr [OF rr fr, of d] obtain s1 where
      a: "dlist_ins_next st (Some n) (Some e) d = Inr (0, s1)"
      "dlist_repr s1 (xs @ e # n # ys)"
      "calls s1 = calls st" "destroy (list s1) = destroy (list st)"
      "match (list s1) = match (list st)" "payload s1 (Some n) = Some d"
      "\<forall>b. b \<noteq> n \<longrightarrow> payload s1 (Some b) = payload st (Some b)"
      by blast
    from ins_prev_repr [OF rr fr, of d] obtain s2 where
      b: "dlist_ins_prev st (Some n) (Some e) d = Inr (0, s2)"
      "dlist_repr s2 (xs @ n # e # ys)"
      "calls s2 = calls st" "destroy (list s2) = destroy (list st)"
      "match (list s2) = match (list st)" "payload s2 (Some n) = Some d"
      "\<forall>b. b \<noteq> n \<longrightarrow> payload s2 (Some b) = payload st (Some b)"
      by blast
    from a(2) b(2) sz have "size' (list s1) = size' (list st) + 1"
      "size' (list s2) = size' (list st) + 1"
      by (simp_all add: dlist_repr_def)
    with a b repr_inv [OF a(2)] repr_inv [OF b(2)] repr_elements [OF a(2)] repr_elements [OF b(2)]
    show ?thesis by simp
  qed
  from 1 2 3 4 5 6 show ?thesis by blast
qed

text \<open>
  Two refused insertions on the list of two elements, an insertion into the empty list
  with a reference that is not \<^verbatim>\<open>NULL\<close>, and an insertion after the tail of the list of
  two elements.
\<close>

theorem insert_refusal_cases_witness:
  "dlist_ins_next two_element_list (Some 3) None ''C'' = Inr (- 1, two_element_list)
   \<and> dlist_ins_prev two_element_list None (Some 1) ''C'' = Inr (- 1, two_element_list)
   \<and> (\<exists>st1. dlist_ins_next empty_list (Some 1) (Some 7) ''x'' = Inr (0, st1)
        \<and> list st1 = \<lparr>size' = 1, match = None, destroy = None, head = Some 1, tail = Some 1\<rparr>
        \<and> heap st1 = [1 \<mapsto> \<lparr>data = ''x'', prev = None, next = None\<rparr>]
        \<and> dlist_elements st1 = [1] \<and> dlist_inv st1)
   \<and> (\<exists>st1. dlist_ins_next two_element_list (Some 3) (Some 2) ''C'' = Inr (0, st1)
        \<and> dlist_inv st1 \<and> dlist_elements st1 = [1, 2, 3] \<and> size' (list st1) = 3
        \<and> payload st1 (Some 3) = Some ''C'')
   \<and> (\<exists>st1. dlist_ins_prev two_element_list (Some 3) (Some 2) ''C'' = Inr (0, st1)
        \<and> dlist_inv st1 \<and> dlist_elements st1 = [1, 3, 2] \<and> size' (list st1) = 3
        \<and> payload st1 (Some 3) = Some ''C'')"
proof -
  have 1: "dlist_inv two_element_list"
    by (simp add: dlist_inv_def two_element_list_def next_of_def prev_of_def numeral_2_eq_2
        insert_commute)
  have 2: "dlist_elements two_element_list = [1] @ 2 # []"
    by (simp add: dlist_elements_def two_element_list_def next_of_def numeral_2_eq_2)
  have 3: "heap two_element_list 3 = None" "size' (list two_element_list) = 2"
    by (simp_all add: two_element_list_def)
  have 4: "size' (list empty_list) = 0" "match (list empty_list) = None"
    "destroy (list empty_list) = None" "heap empty_list = Map.empty"
    by (simp_all add: empty_list_def)
  note A = insert_refusal_cases [where st = two_element_list and m = "Some 3" and element = None
      and d = "''C''" and st' = two_element_list and r = 0 and a = 3 and xs = "[1]" and e = 2
      and ys = "[]" and n = 3]
  note B = insert_refusal_cases [where st = two_element_list and m = None and element = "Some 1"
      and d = "''C''" and st' = two_element_list and r = 0 and a = 3 and xs = "[1]" and e = 2
      and ys = "[]" and n = 3]
  note C = insert_refusal_cases [where st = empty_list and m = "Some 1" and element = "Some 7"
      and d = "''x''" and st' = empty_list and r = 0 and a = 1 and xs = "[1]" and e = 2
      and ys = "[]" and n = 3]
  have a: "dlist_ins_next two_element_list (Some 3) None ''C'' = Inr (- 1, two_element_list)"
    using A [THEN conjunct1] 3 by simp
  have b: "dlist_ins_prev two_element_list None (Some 1) ''C'' = Inr (- 1, two_element_list)"
    using B [THEN conjunct2, THEN conjunct1] by simp
  have c: "\<exists>st1. dlist_ins_next empty_list (Some 1) (Some 7) ''x'' = Inr (0, st1)
        \<and> list st1 = \<lparr>size' = 1, match = None, destroy = None, head = Some 1, tail = Some 1\<rparr>
        \<and> heap st1 = [1 \<mapsto> \<lparr>data = ''x'', prev = None, next = None\<rparr>]
        \<and> dlist_elements st1 = [1] \<and> dlist_inv st1"
  proof -
    from C [THEN conjunct2, THEN conjunct2, THEN conjunct2, THEN conjunct2, THEN conjunct1] 4
    obtain s where "dlist_ins_next empty_list (Some 1) (Some 7) ''x'' = Inr (0, s)"
      "list s = \<lparr>size' = 1, match = None, destroy = None, head = Some 1, tail = Some 1\<rparr>"
      "heap s = [1 \<mapsto> \<lparr>data = ''x'', prev = None, next = None\<rparr>]"
      "dlist_elements s = [1]" "dlist_inv s"
      by auto
    then show ?thesis by blast
  qed
  note D = A [THEN conjunct2, THEN conjunct2, THEN conjunct2, THEN conjunct2, THEN conjunct2,
      rule_format, OF conjI [OF 1 conjI [OF 2 3(1)]]]
  have d: "\<exists>st1. dlist_ins_next two_element_list (Some 3) (Some 2) ''C'' = Inr (0, st1)
        \<and> dlist_inv st1 \<and> dlist_elements st1 = [1, 2, 3] \<and> size' (list st1) = 3
        \<and> payload st1 (Some 3) = Some ''C''"
  proof -
    from D [THEN conjunct1] 3(2)
    obtain s where "dlist_ins_next two_element_list (Some 3) (Some 2) ''C'' = Inr (0, s)"
      "dlist_inv s" "dlist_elements s = [1, 2, 3]" "size' (list s) = 3"
      "payload s (Some 3) = Some ''C''"
      by auto
    then show ?thesis by blast
  qed
  have e: "\<exists>st1. dlist_ins_prev two_element_list (Some 3) (Some 2) ''C'' = Inr (0, st1)
        \<and> dlist_inv st1 \<and> dlist_elements st1 = [1, 3, 2] \<and> size' (list st1) = 3
        \<and> payload st1 (Some 3) = Some ''C''"
  proof -
    from D [THEN conjunct2] 3(2)
    obtain s where "dlist_ins_prev two_element_list (Some 3) (Some 2) ''C'' = Inr (0, s)"
      "dlist_inv s" "dlist_elements s = [1, 3, 2]" "size' (list s) = 3"
      "payload s (Some 3) = Some ''C''"
      by auto
    then show ?thesis by blast
  qed
  from a b c d e show ?thesis by (intro conjI)
qed

text \<open>
  Claim C3. \<^verbatim>\<open>dlist_remove\<close> returns -1 exactly when the element is \<^verbatim>\<open>NULL\<close> or the
  list is empty; it then has written nothing to \<^verbatim>\<open>*data\<close> and the whole state, the list
  structure and every element, is as it was. No other value than 0 and -1 is returned, and
  for a member of a list that satisfies the invariants the removal returns 0.
\<close>

theorem remove_refusal_cases:
  "(dlist_remove st element = Inr (- 1, out, st')
      \<longleftrightarrow> (element = None \<or> size' (list st) = 0) \<and> out = None \<and> st' = st)
   \<and> (dlist_remove st element = Inr (r, out, st') \<longrightarrow> r = 0 \<or> r = - 1)
   \<and> (dlist_inv st \<and> e \<in> set (dlist_elements st) \<longrightarrow>
        (\<exists>d st1. dlist_remove st (Some e) = Inr (0, Some d, st1)))"
proof -
  have 1: "(dlist_remove st element = Inr (- 1, out, st')
      \<longleftrightarrow> (element = None \<or> size' (list st) = 0) \<and> out = None \<and> st' = st)"
    by (auto simp: dlist_remove_def dlist_size_def load_def store_def Let_def
        split: option.splits sum.splits if_splits prod.splits)
  have 2: "dlist_remove st element = Inr (r, out, st') \<longrightarrow> r = 0 \<or> r = - 1"
    using remove_size [of st element r out st'] by blast
  have 3: "\<exists>d st1. dlist_remove st (Some e) = Inr (0, Some d, st1)"
    if "dlist_inv st \<and> e \<in> set (dlist_elements st)"
  proof -
    from that obtain xs ys where rr: "dlist_repr st (xs @ e # ys)"
      by (blast elim: member_split)
    from remove_repr [OF rr] show ?thesis by auto
  qed
  from 1 2 3 show ?thesis by blast
qed

theorem remove_refusal_cases_witness:
  "dlist_remove two_element_list None = Inr (- 1, None, two_element_list)
   \<and> dlist_remove empty_list (Some 1) = Inr (- 1, None, empty_list)
   \<and> (\<exists>d st1. dlist_remove two_element_list (Some 2) = Inr (0, Some d, st1))"
proof -
  have 1: "dlist_inv two_element_list"
    by (simp add: dlist_inv_def two_element_list_def next_of_def prev_of_def numeral_2_eq_2
        insert_commute)
  have 2: "2 \<in> set (dlist_elements two_element_list)"
    by (simp add: dlist_elements_def two_element_list_def next_of_def numeral_2_eq_2)
  have 3: "size' (list empty_list) = 0" by (simp add: empty_list_def)
  from remove_refusal_cases [of two_element_list None None two_element_list 0 2]
    remove_refusal_cases [of empty_list "Some 1" None empty_list 0 2] 1 2 3
  show ?thesis by simp
qed

subsection \<open>Destroying a list with elements\<close>

lemma repr_calls [simp]: "dlist_repr (st\<lparr>calls := cs\<rparr>) as = dlist_repr st as"
  by (simp add: dlist_repr_def)

lemma payload_calls [simp]: "payload (st\<lparr>calls := cs\<rparr>) p = payload st p"
  by (cases p) (simp_all add: payload_def)

text \<open>
  The loop of \<^verbatim>\<open>dlist_destroy\<close> on a list of the elements \<open>as\<close> with the destructor
  \<open>f\<close>: it ends, it calls \<open>f\<close> on the payloads from the tail to the head, and it frees
  every element. By induction on \<open>as\<close> from its end, where each turn removes.
\<close>

lemma destroy_repr:
  "dlist_repr st as \<Longrightarrow> destroy (list st) = Some f \<Longrightarrow>
   \<exists>st' ds. dlist_destroy st = Some (Inr st')
      \<and> list st' = \<lparr>size' = 0, match = None, destroy = None, head = None, tail = None\<rparr>
      \<and> calls st' = calls st @ map (Pair f) ds
      \<and> map Some ds = rev (map (\<lambda>a. payload st (Some a)) as)
      \<and> (\<forall>a. payload st' (Some a) = (if a \<in> set as then None else payload st (Some a)))"
proof (induction as arbitrary: st rule: rev_induct)
  case Nil
  then have "size' (list st) = 0" by (simp add: dlist_repr_def)
  from dlist_destroy_size_0 [OF this] show ?case by (simp add: payload_def)
next
  case (snoc e xs)
  from snoc.prems(1) have sz: "0 < size' (list st)" and tl: "tail (list st) = Some e"
    by (auto simp: dlist_repr_def)
  from snoc.prems(1) have dist: "e \<notin> set xs"
    using seg_distinct [of "next_of (heap st)" "head (list st)" "xs @ [e]"]
    by (simp add: dlist_repr_def)
  from remove_repr [of st xs e "[]"] snoc.prems(1) obtain st1 d where
    rm: "dlist_remove st (Some e) = Inr (0, Some d, st1)"
    and pe: "payload st (Some e) = Some d"
    and r1: "dlist_repr st1 xs" and c1: "calls st1 = calls st"
    and d1: "destroy (list st1) = destroy (list st)"
    and gone: "payload st1 (Some e) = None"
    and keep: "\<forall>a. a \<noteq> e \<longrightarrow> payload st1 (Some a) = payload st (Some a)"
    by auto
  let ?st2 = "st1\<lparr>calls := calls st1 @ [(f, d)]\<rparr>"
  have unfold: "dlist_destroy st = dlist_destroy ?st2"
    by (subst dlist_destroy.simps)
       (simp add: dlist_size_def dlist_tail_def sz tl rm d1 snoc.prems(2))
  have "dlist_repr ?st2 xs" using r1 by simp
  moreover have "destroy (list ?st2) = Some f" using d1 snoc.prems(2) by simp
  ultimately obtain st' ds where
    run: "dlist_destroy ?st2 = Some (Inr st')"
    and l': "list st' = \<lparr>size' = 0, match = None, destroy = None, head = None, tail = None\<rparr>"
    and c': "calls st' = calls ?st2 @ map (Pair f) ds"
    and ds: "map Some ds = rev (map (\<lambda>a. payload ?st2 (Some a)) xs)"
    and fr: "\<forall>a. payload st' (Some a) = (if a \<in> set xs then None else payload ?st2 (Some a))"
    using snoc.IH [of ?st2] by blast
  have same: "map (\<lambda>a. payload ?st2 (Some a)) xs = map (\<lambda>a. payload st (Some a)) xs"
    using keep dist by (auto intro!: map_cong)
  have "map Some (d # ds) = rev (map (\<lambda>a. payload st (Some a)) (xs @ [e]))"
    using ds same pe by simp
  moreover have "calls st' = calls st @ map (Pair f) (d # ds)"
    using c' c1 by simp
  moreover have "\<forall>a. payload st' (Some a)
      = (if a \<in> set (xs @ [e]) then None else payload st (Some a))"
    using fr keep gone by auto
  ultimately show ?case using unfold run l'
    by (intro exI [of _ st'] exI [of _ "d # ds"]) simp
qed

text \<open>
  Claim C4. On a list that satisfies the invariants, holds \<open>N\<close> elements and has the
  destructor \<open>f\<close> registered, \<^verbatim>\<open>dlist_destroy\<close> returns. The calls it makes are exactly
  \<open>N\<close> calls of \<open>f\<close>, one on the payload of each element, from the tail to the head.
  Afterwards the size is zero, head and tail are \<^verbatim>\<open>NULL\<close> and no callback is stored.
\<close>

theorem destroy_invokes_destructor:
  assumes "dlist_inv st" and "destroy (list st) = Some f"
  shows "\<exists>st' ds. dlist_destroy st = Some (Inr st')
      \<and> calls st' = calls st @ map (Pair f) ds
      \<and> length ds = size' (list st)
      \<and> map Some ds = rev (dlist_payloads st)
      \<and> list st' = \<lparr>size' = 0, match = None, destroy = None, head = None, tail = None\<rparr>"
proof -
  from assms(1) have r: "dlist_repr st (dlist_elements st)" by (rule inv_repr)
  from destroy_repr [OF r assms(2)] obtain st' ds where
    1: "dlist_destroy st = Some (Inr st')"
      "list st' = \<lparr>size' = 0, match = None, destroy = None, head = None, tail = None\<rparr>"
      "calls st' = calls st @ map (Pair f) ds"
    and ds: "map Some ds = rev (map (\<lambda>a. payload st (Some a)) (dlist_elements st))"
    by blast
  from ds have "length (map Some ds) = length (dlist_elements st)" by simp
  with r have "length ds = size' (list st)" by (simp add: dlist_repr_def)
  with 1 ds show ?thesis by (auto simp: dlist_payloads_def)
qed

theorem destroy_invokes_destructor_witness:
  "\<exists>st'. dlist_destroy two_element_list = Some (Inr st')
     \<and> calls st' = [(7, ''B''), (7, ''A'')]
     \<and> list st' = \<lparr>size' = 0, match = None, destroy = None, head = None, tail = None\<rparr>"
proof -
  have 1: "dlist_inv two_element_list"
    by (simp add: dlist_inv_def two_element_list_def next_of_def prev_of_def numeral_2_eq_2
        insert_commute)
  have 2: "destroy (list two_element_list) = Some 7"
    by (simp add: two_element_list_def)
  have 3: "rev (dlist_payloads two_element_list) = [Some ''B'', Some ''A'']"
    by (simp add: dlist_payloads_def dlist_elements_def payload_def two_element_list_def
        next_of_def numeral_2_eq_2)
  have 4: "calls two_element_list = []" by (simp add: two_element_list_def)
  from destroy_invokes_destructor [OF 1 2] show ?thesis
    unfolding 3 4 by (auto simp: map_eq_Cons_conv)
qed

subsection \<open>The scenario of the specification\<close>

text \<open>
  Claim C5. Start from a freshly initialised list, with any callbacks, and let the three
  allocations return three different addresses \<open>a1\<close>, \<open>a2\<close>, \<open>a3\<close>. Every call returns
  0 and every state on the way satisfies the structural invariants.
  Inserting \<^verbatim>\<open>"A"\<close> after \<^verbatim>\<open>NULL\<close> gives size 1 with head and tail the element \<^verbatim>\<open>"A"\<close>,
  which has no previous and no next element.
  Inserting \<^verbatim>\<open>"B"\<close> after the head gives size 2 with head \<^verbatim>\<open>"A"\<close> and tail \<^verbatim>\<open>"B"\<close>, the
  next element of the head is \<^verbatim>\<open>"B"\<close> and the previous element of the tail is \<^verbatim>\<open>"A"\<close>.
  Inserting \<^verbatim>\<open>"C"\<close> before the tail gives size 3 and the order A, C, B, read forward from
  the head and read backward from the tail.
  Removing the head returns \<^verbatim>\<open>"A"\<close>, frees that element and leaves size 2 with head
  \<^verbatim>\<open>"C"\<close>, which now has no previous element, and tail \<^verbatim>\<open>"B"\<close>.
  Destroying the list frees both elements and leaves size zero, head and tail \<^verbatim>\<open>NULL\<close> and
  no callback, after calling the destructor, if there is one, on \<^verbatim>\<open>"B"\<close> and then on
  \<^verbatim>\<open>"C"\<close>.
\<close>

theorem concrete_scenario:
  assumes "distinct [a1, a2, a3]"
  shows "\<exists>s1. dlist_ins_next (dlist_init st dtor mtch) (Some a1) None ''A'' = Inr (0, s1)
      \<and> size' (list s1) = 1 \<and> head (list s1) = tail (list s1)
      \<and> payload s1 (head (list s1)) = Some ''A''
      \<and> head (list s1) = Some a1
      \<and> heap s1 a1 = Some \<lparr>data = ''A'', prev = None, next = None\<rparr>
      \<and> dlist_inv s1
      \<and> (\<exists>s2. dlist_ins_next s1 (Some a2) (head (list s1)) ''B'' = Inr (0, s2)
        \<and> size' (list s2) = 2
        \<and> payload s2 (head (list s2)) = Some ''A'' \<and> payload s2 (tail (list s2)) = Some ''B''
        \<and> dlist_payloads s2 = [Some ''A'', Some ''B'']
        \<and> payload s2 (next_elmt s2 (head (list s2))) = Some ''B''
        \<and> payload s2 (prev_elmt s2 (tail (list s2))) = Some ''A''
        \<and> head (list s2) = Some a1 \<and> tail (list s2) = Some a2
        \<and> heap s2 a1 = Some \<lparr>data = ''A'', prev = None, next = Some a2\<rparr>
        \<and> heap s2 a2 = Some \<lparr>data = ''B'', prev = Some a1, next = None\<rparr>
        \<and> dlist_inv s2
        \<and> (\<exists>s3. dlist_ins_prev s2 (Some a3) (tail (list s2)) ''C'' = Inr (0, s3)
          \<and> size' (list s3) = 3
          \<and> dlist_payloads s3 = [Some ''A'', Some ''C'', Some ''B'']
          \<and> head (list s3) = Some a1 \<and> tail (list s3) = Some a2
          \<and> heap s3 a1 = Some \<lparr>data = ''A'', prev = None, next = Some a3\<rparr>
          \<and> heap s3 a3 = Some \<lparr>data = ''C'', prev = Some a1, next = Some a2\<rparr>
          \<and> heap s3 a2 = Some \<lparr>data = ''B'', prev = Some a3, next = None\<rparr>
          \<and> payload s3 (prev_elmt s3 (tail (list s3))) = Some ''C''
          \<and> payload s3 (prev_elmt s3 (prev_elmt s3 (tail (list s3)))) = Some ''A''
          \<and> dlist_inv s3
          \<and> (\<exists>s4. dlist_remove s3 (head (list s3)) = Inr (0, Some ''A'', s4)
            \<and> size' (list s4) = 2 \<and> payload s4 (head (list s4)) = Some ''C''
            \<and> dlist_payloads s4 = [Some ''C'', Some ''B'']
            \<and> head (list s4) = Some a3 \<and> tail (list s4) = Some a2
            \<and> heap s4 a1 = None
            \<and> heap s4 a3 = Some \<lparr>data = ''C'', prev = None, next = Some a2\<rparr>
            \<and> heap s4 a2 = Some \<lparr>data = ''B'', prev = Some a3, next = None\<rparr>
            \<and> dlist_inv s4
            \<and> (\<exists>s5. dlist_destroy s4 = Some (Inr s5)
              \<and> list s5 = \<lparr>size' = 0, match = None, destroy = None,
                              head = None, tail = None\<rparr>
              \<and> heap s5 a1 = None \<and> heap s5 a2 = None \<and> heap s5 a3 = None
              \<and> dlist_inv s5
              \<and> calls s5 = calls st
                  @ (case dtor of None \<Rightarrow> [] | Some f \<Rightarrow> [(f, ''B''), (f, ''C'')])))))"
  using assms
  by (cases dtor)
     (simp_all add: dlist_init_def dlist_ins_next_def dlist_ins_prev_def dlist_remove_def
      dlist_destroy.simps dlist_size_def dlist_tail_def load_def store_def Let_def
      payload_def next_elmt_def prev_elmt_def dlist_payloads_def dlist_elements_def
      dlist_inv_def next_of_def prev_of_def
      numeral_2_eq_2 numeral_3_eq_3 insert_commute)

theorem concrete_scenario_witness:
  "\<exists>s1. dlist_ins_next (dlist_init empty_list (Some 7) None) (Some 1) None ''A'' = Inr (0, s1)
      \<and> size' (list s1) = 1 \<and> head (list s1) = tail (list s1)
      \<and> payload s1 (head (list s1)) = Some ''A''
      \<and> head (list s1) = Some 1
      \<and> heap s1 1 = Some \<lparr>data = ''A'', prev = None, next = None\<rparr>
      \<and> dlist_inv s1
      \<and> (\<exists>s2. dlist_ins_next s1 (Some 2) (head (list s1)) ''B'' = Inr (0, s2)
        \<and> size' (list s2) = 2
        \<and> payload s2 (head (list s2)) = Some ''A'' \<and> payload s2 (tail (list s2)) = Some ''B''
        \<and> dlist_payloads s2 = [Some ''A'', Some ''B'']
        \<and> payload s2 (next_elmt s2 (head (list s2))) = Some ''B''
        \<and> payload s2 (prev_elmt s2 (tail (list s2))) = Some ''A''
        \<and> head (list s2) = Some 1 \<and> tail (list s2) = Some 2
        \<and> heap s2 1 = Some \<lparr>data = ''A'', prev = None, next = Some 2\<rparr>
        \<and> heap s2 2 = Some \<lparr>data = ''B'', prev = Some 1, next = None\<rparr>
        \<and> dlist_inv s2
        \<and> (\<exists>s3. dlist_ins_prev s2 (Some 3) (tail (list s2)) ''C'' = Inr (0, s3)
          \<and> size' (list s3) = 3
          \<and> dlist_payloads s3 = [Some ''A'', Some ''C'', Some ''B'']
          \<and> head (list s3) = Some 1 \<and> tail (list s3) = Some 2
          \<and> heap s3 1 = Some \<lparr>data = ''A'', prev = None, next = Some 3\<rparr>
          \<and> heap s3 3 = Some \<lparr>data = ''C'', prev = Some 1, next = Some 2\<rparr>
          \<and> heap s3 2 = Some \<lparr>data = ''B'', prev = Some 3, next = None\<rparr>
          \<and> payload s3 (prev_elmt s3 (tail (list s3))) = Some ''C''
          \<and> payload s3 (prev_elmt s3 (prev_elmt s3 (tail (list s3)))) = Some ''A''
          \<and> dlist_inv s3
          \<and> (\<exists>s4. dlist_remove s3 (head (list s3)) = Inr (0, Some ''A'', s4)
            \<and> size' (list s4) = 2 \<and> payload s4 (head (list s4)) = Some ''C''
            \<and> dlist_payloads s4 = [Some ''C'', Some ''B'']
            \<and> head (list s4) = Some 3 \<and> tail (list s4) = Some 2
            \<and> heap s4 1 = None
            \<and> heap s4 3 = Some \<lparr>data = ''C'', prev = None, next = Some 2\<rparr>
            \<and> heap s4 2 = Some \<lparr>data = ''B'', prev = Some 3, next = None\<rparr>
            \<and> dlist_inv s4
            \<and> (\<exists>s5. dlist_destroy s4 = Some (Inr s5)
              \<and> list s5 = \<lparr>size' = 0, match = None, destroy = None,
                              head = None, tail = None\<rparr>
              \<and> heap s5 1 = None \<and> heap s5 2 = None \<and> heap s5 3 = None
              \<and> dlist_inv s5
              \<and> calls s5 = [(7, ''B''), (7, ''C'')]))))"
proof -
  have d: "distinct [1::nat, 2, 3]" by simp
  have c: "calls empty_list = []" by (simp add: empty_list_def)
  from concrete_scenario [OF d, of empty_list "Some 7" None] show ?thesis
    unfolding c by simp
qed

end
